theory Spec2Isabelle
  imports Complex_Main "HOL-Library.Word"
begin

section \<open>Data model\<close>

text \<open>
  The program of \<^verbatim>\<open>Assignment2.cpp\<close> reads data files holding one charge per line,
  validates every line and computes three statistics per file.

  \<^item> \<^verbatim>\<open>unsigned int\<close> is a 32-bit word: \<open>+\<close> and \<open>-\<close> wrap around.
  \<^item> \<^verbatim>\<open>double\<close> is idealised as a real number: arithmetic and the conversion of a
    decimal literal do not round. The range of a double is kept. A literal too large
    for a double stores the largest double and raises \<^verbatim>\<open>failbit\<close>, and a literal
    too small for a double stores zero. A sum, a difference or a square too large for
    a double is an infinity in IEEE arithmetic: it is the error value \<open>Overflow\<close>.
  \<^item> A division by zero yields an infinity or a NaN in IEEE arithmetic, and ISO C++
    defines nothing for it ([expr.mul]): it is the error value \<open>DivisionByZero\<close>. An
    operation on an error value yields it again, as an operation on an infinity or a
    NaN yields an infinity or a NaN.
  \<^item> \<^verbatim>\<open>std::string\<close> is a list of characters.
\<close>

type_synonym uint = "32 word"
type_synonym double = real

datatype error =
    ProcessExit         \<comment> \<open>\<^verbatim>\<open>exit(0)\<close> was called\<close>
  | OutOfBounds         \<comment> \<open>an array cell outside the allocation was accessed\<close>
  | Uninitialised       \<comment> \<open>an array cell or variable was read before it was written\<close>
  | DivisionByZero      \<comment> \<open>the divisor of \<^verbatim>\<open>/\<close> was zero\<close>
  | Overflow            \<comment> \<open>the result is too large for a double\<close>
  | DomainError         \<comment> \<open>\<^verbatim>\<open>std::sqrt\<close> of a negative number\<close>

text \<open>What the program writes to \<^verbatim>\<open>std::cout\<close>, one event per message.\<close>

datatype event =
    CouldNotOpen string
  | CorruptDataPoint string
  | FileReport string "error + double" "error + double" "error + double"

section \<open>The C++ library as used by the program\<close>

subsection \<open>Character classes\<close>

text \<open>\<^verbatim>\<open>std::isspace\<close> in the "C" locale: space, \<^verbatim>\<open>\t \n \v \f \r\<close>.\<close>

definition isspace :: "char \<Rightarrow> bool" where
  "isspace c \<longleftrightarrow> c \<in> set [CHR '' '', CHR 0x09, CHR 0x0A, CHR 0x0B, CHR 0x0C, CHR 0x0D]"

definition isdigit :: "char \<Rightarrow> bool" where
  "isdigit c \<longleftrightarrow> c \<in> set ''0123456789''"

definition digit_val :: "char \<Rightarrow> nat" where
  "digit_val c = of_char c - 48"

definition newline :: char where
  "newline = CHR 0x0A"

subsection \<open>Input streams\<close>

text \<open>
  A \<^verbatim>\<open>std::stringstream\<close> that is only read: the characters not yet extracted and
  the two state flags the program can reach (\<^verbatim>\<open>badbit\<close> is never raised).
\<close>

record sstream =
  buf :: string
  eofbit :: bool
  failbit :: bool

definition sstream_of :: "string \<Rightarrow> sstream" where
  "sstream_of s = \<lparr>buf = s, eofbit = False, failbit = False\<rparr>"

text \<open>
  \<^verbatim>\<open>istream::sentry\<close> with \<^verbatim>\<open>skipws\<close> set ([istream::sentry]): a stream that is not
  good gets \<^verbatim>\<open>failbit\<close>; otherwise leading whitespace is discarded, and reaching the
  end while doing so raises \<^verbatim>\<open>failbit | eofbit\<close>. The result says whether the
  extraction may proceed.
\<close>

definition sentry :: "sstream \<Rightarrow> bool \<times> sstream" where
  "sentry s =
     (if eofbit s \<or> failbit s then (False, s\<lparr>failbit := True\<rparr>)
      else if dropWhile isspace (buf s) = []
        then (False, s\<lparr>buf := [], eofbit := True, failbit := True\<rparr>)
      else (True, s\<lparr>buf := dropWhile isspace (buf s)\<rparr>))"

text \<open>
  The characters \<^verbatim>\<open>num_get\<close> accumulates for a floating-point value in the "C" locale
  (stage 2 of [facet.num.get.virtuals], as GNU libstdc++ implements it for decimal
  input): an optional sign, digits, at most one decimal point, digits, and, once a
  mantissa digit was seen, an exponent mark with an optional sign and digits.
\<close>

record float_field =
  f_sign :: string
  f_int :: string
  f_frac :: string
  f_mark :: bool
  f_esign :: string
  f_exp :: string

definition take_sign :: "string \<Rightarrow> string \<times> string" where
  "take_sign s =
     (case s of
        [] \<Rightarrow> ([], [])
      | c # r \<Rightarrow> if c = CHR ''+'' \<or> c = CHR ''-'' then ([c], r) else ([], s))"

definition take_point :: "string \<Rightarrow> string" where
  "take_point s = (case s of [] \<Rightarrow> [] | c # r \<Rightarrow> if c = CHR ''.'' then r else s)"

definition scan_exponent :: "bool \<Rightarrow> string \<Rightarrow> bool \<times> string \<times> string \<times> string" where
  "scan_exponent found_mantissa s =
     (case s of
        [] \<Rightarrow> (False, [], [], [])
      | c # r \<Rightarrow>
          if (c = CHR ''e'' \<or> c = CHR ''E'') \<and> found_mantissa
          then (case take_sign r of
                  (sg, r') \<Rightarrow> (True, sg, takeWhile isdigit r', dropWhile isdigit r'))
          else (False, [], [], s))"

definition scan_float :: "string \<Rightarrow> float_field \<times> string" where
  "scan_float s =
     (case take_sign s of (sg, s1) \<Rightarrow>
        let ip = takeWhile isdigit s1;
            s2 = take_point (dropWhile isdigit s1);
            fp = takeWhile isdigit s2;
            s3 = dropWhile isdigit s2
        in (case scan_exponent (ip @ fp \<noteq> []) s3 of (mark, esg, ex, rest) \<Rightarrow>
              (\<lparr>f_sign = sg, f_int = ip, f_frac = fp,
                f_mark = mark, f_esign = esg, f_exp = ex\<rparr>, rest)))"

text \<open>
  Stage 3: the accumulated characters are converted as by \<^verbatim>\<open>strtod\<close>, and the
  conversion fails unless it uses all of them: there must be a mantissa digit, and an
  exponent digit after an exponent mark.
\<close>

definition well_formed :: "float_field \<Rightarrow> bool" where
  "well_formed fld \<longleftrightarrow> f_int fld @ f_frac fld \<noteq> [] \<and> (f_mark fld \<longrightarrow> f_exp fld \<noteq> [])"

definition nat_of_digits :: "string \<Rightarrow> nat" where
  "nat_of_digits ds = foldl (\<lambda>a c. 10 * a + digit_val c) 0 ds"

definition pow10 :: "int \<Rightarrow> real" where
  "pow10 k = (if 0 \<le> k then 10 ^ nat k else 1 / 10 ^ nat (- k))"

definition exact_value :: "float_field \<Rightarrow> real" where
  "exact_value fld =
     (if f_sign fld = ''-'' then - 1 else 1)
     * real (nat_of_digits (f_int fld @ f_frac fld))
     * pow10 ((if f_esign fld = ''-'' then - 1 else 1) * int (nat_of_digits (f_exp fld))
              - int (length (f_frac fld)))"

text \<open>
  The range of a double under round-to-nearest: a magnitude of at least
  \<open>2^1024 - 2^970\<close> overflows, and one of at most \<open>2^-1075\<close> becomes zero.
\<close>

definition DBL_MAX :: real where
  "DBL_MAX = 2 ^ 1024 - 2 ^ 971"

definition overflows :: "real \<Rightarrow> bool" where
  "overflows x \<longleftrightarrow> 2 ^ 1024 - 2 ^ 970 \<le> \<bar>x\<bar>"

definition underflows :: "real \<Rightarrow> bool" where
  "underflows x \<longleftrightarrow> \<bar>x\<bar> * 2 ^ 1075 \<le> 1"

text \<open>
  \<^verbatim>\<open>num_get::do_get\<close> for \<^verbatim>\<open>double\<close>: the value stored, whether \<^verbatim>\<open>failbit\<close> is
  raised, and the characters left unread. Since C++11 a failed conversion stores zero,
  and a value out of range stores the largest double of its sign; both raise
  \<^verbatim>\<open>failbit\<close>.
\<close>

definition num_get_double :: "string \<Rightarrow> double \<times> bool \<times> string" where
  "num_get_double s =
     (case scan_float s of (fld, rest) \<Rightarrow>
        if \<not> well_formed fld then (0, True, rest)
        else if overflows (exact_value fld)
          then (if exact_value fld < 0 then - DBL_MAX else DBL_MAX, True, rest)
        else if underflows (exact_value fld) then (0, False, rest)
        else (exact_value fld, False, rest))"

text \<open>
  \<^verbatim>\<open>stream >> double\<close>: when the sentry refuses, the variable keeps its old value.
  Otherwise the value comes from \<^verbatim>\<open>num_get\<close>, and \<^verbatim>\<open>eofbit\<close> is raised when the
  extraction reached the end of the stream.
\<close>

definition extract_double :: "sstream \<Rightarrow> double \<Rightarrow> double \<times> sstream" where
  "extract_double s old =
     (case sentry s of
        (False, s') \<Rightarrow> (old, s')
      | (True, s') \<Rightarrow>
          (case num_get_double (buf s') of (v, fail, rest) \<Rightarrow>
             (v, s'\<lparr>buf := rest, eofbit := (rest = []), failbit := fail\<rparr>)))"

text \<open>
  \<^verbatim>\<open>stream >> std::string\<close>: when the sentry refuses, the string keeps its old
  value. Otherwise it receives the characters up to the next whitespace.
\<close>

definition extract_string :: "sstream \<Rightarrow> string \<Rightarrow> string \<times> sstream" where
  "extract_string s old =
     (case sentry s of
        (False, s') \<Rightarrow> (old, s')
      | (True, s') \<Rightarrow>
          (takeWhile (\<lambda>c. \<not> isspace c) (buf s'),
           s'\<lparr>buf := dropWhile (\<lambda>c. \<not> isspace c) (buf s'),
              eofbit := (dropWhile (\<lambda>c. \<not> isspace c) (buf s') = []),
              failbit := (takeWhile (\<lambda>c. \<not> isspace c) (buf s') = [])\<rparr>))"

text \<open>
  A \<^verbatim>\<open>std::fstream\<close> opened for reading: the content of the file, the part of it not
  yet read, and the state flags.
\<close>

record fstream =
  is_open :: bool
  content :: string
  unread :: string
  feof :: bool
  ffail :: bool

definition closed_file :: fstream where
  "closed_file = \<lparr>is_open = False, content = [], unread = [], feof = False, ffail = False\<rparr>"

text \<open>
  \<^verbatim>\<open>std::getline(file, line)\<close> into a fresh, empty \<^verbatim>\<open>line\<close>: a stream that is not
  good gets \<^verbatim>\<open>failbit\<close> and leaves the line empty. Otherwise characters are moved to
  the line up to a newline, which is consumed and dropped, or to the end of the file,
  which raises \<^verbatim>\<open>eofbit\<close>, and \<^verbatim>\<open>failbit\<close> too when nothing was extracted.
\<close>

definition getline :: "fstream \<Rightarrow> string \<times> fstream" where
  "getline f =
     (if feof f \<or> ffail f then ([], f\<lparr>ffail := True\<rparr>)
      else if newline \<in> set (unread f)
        then (takeWhile (\<lambda>c. c \<noteq> newline) (unread f),
              f\<lparr>unread := tl (dropWhile (\<lambda>c. c \<noteq> newline) (unread f))\<rparr>)
      else (unread f, f\<lparr>unread := [], feof := True, ffail := (unread f = [])\<rparr>))"

text \<open>The files that can be opened for reading, by path, with their content.\<close>

type_synonym filesystem = "string \<rightharpoonup> string"

section \<open>namespace String\<close>

definition ltrim :: "string \<Rightarrow> string" where
  "ltrim s = dropWhile isspace s"

definition rtrim :: "string \<Rightarrow> string" where
  "rtrim s = rev (dropWhile isspace (rev s))"

definition trim :: "string \<Rightarrow> string" where
  "trim s = rtrim (ltrim s)"

section \<open>class ChargeDataModel\<close>

text \<open>
  \<^verbatim>\<open>m_charges\<close> is \<open>None\<close> for \<^verbatim>\<open>nullptr\<close>, otherwise the allocated array; a cell
  of the array is \<open>None\<close> until it is written (\<^verbatim>\<open>new double[n]\<close> does not
  initialise).
\<close>

record ChargeDataModel =
  m_file :: fstream
  m_filepath :: string
  m_charges :: "double option list option"

definition new_model :: ChargeDataModel where
  "new_model = \<lparr>m_file = closed_file, m_filepath = [], m_charges = None\<rparr>"

definition init :: "ChargeDataModel \<Rightarrow> string \<Rightarrow> ChargeDataModel" where
  "init m filepath = m\<lparr>m_filepath := filepath\<rparr>"

definition dispose :: "ChargeDataModel \<Rightarrow> ChargeDataModel" where
  "dispose m =
     m\<lparr>m_file := (if is_open (m_file m) then (m_file m)\<lparr>is_open := False\<rparr> else m_file m),
       m_charges := None\<rparr>"

text \<open>
  \<^verbatim>\<open>m_file.open\<close> fails on a stream that is already open and on a path that cannot be
  opened, raising \<^verbatim>\<open>failbit\<close>; on success the flags are cleared. The result is
  \<^verbatim>\<open>m_file.is_open()\<close>.
\<close>

definition openFile :: "filesystem \<Rightarrow> ChargeDataModel \<Rightarrow> bool \<times> ChargeDataModel" where
  "openFile fs m =
     (if is_open (m_file m) then (True, m\<lparr>m_file := (m_file m)\<lparr>ffail := True\<rparr>\<rparr>)
      else (case fs (m_filepath m) of
              None \<Rightarrow> (False, m\<lparr>m_file := (m_file m)\<lparr>ffail := True\<rparr>\<rparr>)
            | Some c \<Rightarrow>
                (True, m\<lparr>m_file := \<lparr>is_open = True, content = c, unread = c,
                                   feof = False, ffail = False\<rparr>\<rparr>)))"

text \<open>
  The count of newline characters from the read position to the end of the file,
  converted to \<^verbatim>\<open>unsigned int\<close>; a stream that is not good yields no character.
  Afterwards the flags are cleared and the read position is the start of the file.
\<close>

definition getLineCount :: "fstream \<Rightarrow> uint \<times> fstream" where
  "getLineCount f =
     (of_nat (if feof f \<or> ffail f then 0 else count_list (unread f) newline),
      f\<lparr>unread := content f, feof := False, ffail := False\<rparr>)"

text \<open>
  The body of the loop up to the test: the line is trimmed and put in a stringstream,
  a double is extracted into \<^verbatim>\<open>possibleCharge\<close> (initially \<open>-1.0\<close>), then a string
  into \<^verbatim>\<open>emptyTest\<close> (initially empty).
\<close>

definition readCandidate :: "string \<Rightarrow> double \<times> string" where
  "readCandidate line =
     (case extract_double (sstream_of (trim line)) (- 1) of
        (possibleCharge, sstream') \<Rightarrow>
          (case extract_string sstream' [] of
             (emptyTest, _) \<Rightarrow> (possibleCharge, emptyTest)))"

function load_loop ::
  "string \<Rightarrow> uint \<Rightarrow> uint \<Rightarrow> uint \<Rightarrow> fstream \<Rightarrow> double option list \<Rightarrow> event list
     \<Rightarrow> event list \<times> (error + fstream \<times> double option list \<times> uint)" where
  "load_loop path i maxSize finalSize f charges out =
     (if i < maxSize then
        (case getline f of (line, f') \<Rightarrow>
           (case readCandidate line of (possibleCharge, emptyTest) \<Rightarrow>
              if possibleCharge < 0 \<or> emptyTest \<noteq> [] then
                load_loop path (i + 1) maxSize (finalSize - 1) f' charges
                  (out @ [CorruptDataPoint path])
              else if unat (i - maxSize + finalSize) < length charges then
                load_loop path (i + 1) maxSize finalSize f'
                  (charges[unat (i - maxSize + finalSize) := Some possibleCharge]) out
              else (out, Inl OutOfBounds)))
      else (out, Inr (f, charges, finalSize)))"
  by pat_completeness auto
termination
proof (relation "measure (\<lambda>(path, i, maxSize, rest). unat (maxSize - i))")
  fix i maxSize :: uint
  assume "i < maxSize"
  then have "maxSize - i \<noteq> 0" by auto
  then have "unat (maxSize - i - 1) < unat (maxSize - i)" by (rule measure_unat)
  then have dec: "unat (maxSize - (i + 1)) < unat (maxSize - i)"
    by (simp add: diff_diff_eq)
  {
    fix path :: string and finalSize finalSize' :: uint and f f' :: fstream
      and charges charges' :: "double option list" and out out' :: "event list"
    show "((path, i + 1, maxSize, finalSize', f', charges', out'),
            path, i, maxSize, finalSize, f, charges, out)
           \<in> measure (\<lambda>(path, i, maxSize, rest). unat (maxSize - i))"
      using dec by simp
  }
  note step = this
  {
    fix path :: string and finalSize finalSize' :: uint and f f' :: fstream
      and charges charges' :: "double option list" and out out' :: "event list"
    show "((path, i + 1, maxSize, finalSize', f', charges', out'),
            path, i, maxSize, finalSize, f, charges, out)
           \<in> measure (\<lambda>(path, i, maxSize, rest). unat (maxSize - i))"
      by (rule step)
  }
qed simp

text \<open>
  \<^verbatim>\<open>loadDataFromFile\<close>: a file that is not open and cannot be opened ends the
  process. Otherwise an array of \<^verbatim>\<open>maxSize\<close> cells is allocated, the loop runs, and
  \<^verbatim>\<open>size\<close> receives \<^verbatim>\<open>finalSize\<close>.
\<close>

definition loadDataFromFile ::
  "filesystem \<Rightarrow> ChargeDataModel \<Rightarrow> event list
     \<Rightarrow> event list \<times> (error + ChargeDataModel \<times> uint)" where
  "loadDataFromFile fs m out =
     (case (if is_open (m_file m) then (True, m) else openFile fs m) of
        (opened, m1) \<Rightarrow>
          if \<not> opened then (out @ [CouldNotOpen (m_filepath m)], Inl ProcessExit)
          else (case getLineCount (m_file m1) of (maxSize, f) \<Rightarrow>
                  (case load_loop (m_filepath m1) 0 maxSize maxSize f
                          (replicate (unat maxSize) None) out of
                     (out', Inl e) \<Rightarrow> (out', Inl e)
                   | (out', Inr (f', charges, finalSize)) \<Rightarrow>
                       (out', Inr (m1\<lparr>m_file := f', m_charges := Some charges\<rparr>,
                                   finalSize)))))"

text \<open>
  \<^verbatim>\<open>getChargeData(size)\<close>: \<^verbatim>\<open>size\<close> is passed by reference and is only written when
  the data is loaded; \<open>None\<close> is a variable that was never assigned.
\<close>

definition getChargeData ::
  "filesystem \<Rightarrow> ChargeDataModel \<Rightarrow> uint option \<Rightarrow> event list
     \<Rightarrow> event list \<times> (error + ChargeDataModel \<times> double option list option \<times> uint option)" where
  "getChargeData fs m sz out =
     (if m_charges m = None then
        (case loadDataFromFile fs m out of
           (out', Inl e) \<Rightarrow> (out', Inl e)
         | (out', Inr (m', sz')) \<Rightarrow> (out', Inr (m', m_charges m', Some sz')))
      else (out, Inr (m, m_charges m, sz)))"

section \<open>namespace DataAnalysis\<close>

text \<open>
  Arithmetic on doubles that may be no finite number. The loader only ever stores
  finite doubles, so the cells of the array are real numbers; totals, quotients and
  roots are of type \<open>error + double\<close>. A result is finite unless its magnitude
  overflows.
\<close>

definition finite_result :: "real \<Rightarrow> error + double" where
  "finite_result x = (if overflows x then Inl Overflow else Inr x)"

definition fadd :: "error + double \<Rightarrow> error + double \<Rightarrow> error + double" where
  "fadd a b =
     (case a of Inl e \<Rightarrow> Inl e
      | Inr x \<Rightarrow> (case b of Inl e \<Rightarrow> Inl e | Inr y \<Rightarrow> finite_result (x + y)))"

definition fsub :: "error + double \<Rightarrow> error + double \<Rightarrow> error + double" where
  "fsub a b =
     (case a of Inl e \<Rightarrow> Inl e
      | Inr x \<Rightarrow> (case b of Inl e \<Rightarrow> Inl e | Inr y \<Rightarrow> finite_result (x - y)))"

text \<open>
  The divisors of the program are zero or of magnitude at least 1, a count or the root
  of a count: the quotient of a double by such a divisor does not overflow.
\<close>

definition fdiv :: "error + double \<Rightarrow> error + double \<Rightarrow> error + double" where
  "fdiv a b =
     (case a of Inl e \<Rightarrow> Inl e
      | Inr x \<Rightarrow>
          (case b of Inl e \<Rightarrow> Inl e
           | Inr y \<Rightarrow> if y = 0 then Inl DivisionByZero else Inr (x / y)))"

text \<open>\<^verbatim>\<open>std::pow(a, 2.0)\<close> and \<^verbatim>\<open>std::sqrt(a)\<close>.\<close>

definition fpow2 :: "error + double \<Rightarrow> error + double" where
  "fpow2 a = (case a of Inl e \<Rightarrow> Inl e | Inr x \<Rightarrow> finite_result (x\<^sup>2))"

definition fsqrt :: "error + double \<Rightarrow> error + double" where
  "fsqrt a =
     (case a of Inl e \<Rightarrow> Inl e
      | Inr x \<Rightarrow> if x < 0 then Inl DomainError else Inr (sqrt x))"

text \<open>Reading \<^verbatim>\<open>data[i]\<close>.\<close>

definition read_cell :: "double option list \<Rightarrow> uint \<Rightarrow> error + double" where
  "read_cell data i =
     (if unat i < length data
      then (case data ! unat i of None \<Rightarrow> Inl Uninitialised | Some x \<Rightarrow> Inr x)
      else Inl OutOfBounds)"

text \<open>
  The two summation loops as one function: \<open>g\<close> is what is added for a cell, the
  cell itself in \<^verbatim>\<open>computeMean\<close> and \<^verbatim>\<open>std::pow(data[i] - mean, 2.0)\<close> in
  \<^verbatim>\<open>computeStandardDeviation\<close>.
\<close>

function total_loop ::
  "(double \<Rightarrow> error + double) \<Rightarrow> double option list \<Rightarrow> uint \<Rightarrow> uint \<Rightarrow> error + double
     \<Rightarrow> error + double" where
  "total_loop g data sz i tot =
     (if i < sz then
        (case read_cell data i of
           Inl e \<Rightarrow> Inl e
         | Inr x \<Rightarrow> total_loop g data sz (i + 1) (fadd tot (g x)))
      else tot)"
  by pat_completeness auto
termination
proof (relation "measure (\<lambda>(g, data, sz, i, tot). unat (sz - i))")
  fix i sz :: uint and g :: "double \<Rightarrow> error + double" and data :: "double option list"
    and tot :: "error + double" and x :: double
  assume "i < sz"
  then have "sz - i \<noteq> 0" by auto
  then have "unat (sz - i - 1) < unat (sz - i)" by (rule measure_unat)
  then have "unat (sz - (i + 1)) < unat (sz - i)"
    by (simp add: diff_diff_eq)
  then show "((g, data, sz, i + 1, fadd tot (g x)), g, data, sz, i, tot)
               \<in> measure (\<lambda>(g, data, sz, i, tot). unat (sz - i))"
    by simp
qed simp

definition computeMean :: "double option list \<Rightarrow> uint \<Rightarrow> error + double" where
  "computeMean data sz =
     fdiv (total_loop (\<lambda>x. Inr x) data sz 0 (Inr 0)) (Inr (real (unat sz)))"

definition computeStandardDeviation ::
  "double option list \<Rightarrow> uint \<Rightarrow> error + double \<Rightarrow> error + double" where
  "computeStandardDeviation data sz mean =
     fsqrt (fdiv (total_loop (\<lambda>x. fpow2 (fsub (Inr x) mean)) data sz 0 (Inr 0))
                 (Inr (real (unat (sz - 1)))))"

definition computeStandardErrorInTheMean :: "error + double \<Rightarrow> uint \<Rightarrow> error + double" where
  "computeStandardErrorInTheMean mean sz = fdiv mean (fsqrt (Inr (real (unat sz))))"

section \<open>The loop over the files in main\<close>

text \<open>
  One model is reused for all files. A file that cannot be opened ends the process
  inside \<^verbatim>\<open>getChargeData\<close>; the remaining files are not touched.
\<close>

fun main_loop ::
  "filesystem \<Rightarrow> ChargeDataModel \<Rightarrow> string list \<Rightarrow> event list
     \<Rightarrow> event list \<times> (error + ChargeDataModel)" where
  "main_loop fs model [] out = (out, Inr model)"
| "main_loop fs model (file # files) out =
     (case getChargeData fs (init model file) None out of
        (out', Inl e) \<Rightarrow> (out', Inl e)
      | (out', Inr (model', None, sz)) \<Rightarrow> (out', Inl Uninitialised)
      | (out', Inr (model', Some data, None)) \<Rightarrow> (out', Inl Uninitialised)
      | (out', Inr (model', Some data, Some sz)) \<Rightarrow>
          (let mean = computeMean data sz;
               standardDeviation = computeStandardDeviation data sz mean;
               errorInTheMean = computeStandardErrorInTheMean mean sz
           in main_loop fs (dispose model') files
                (out' @ [FileReport file mean errorInTheMean standardDeviation])))"

definition main :: "filesystem \<Rightarrow> string list \<Rightarrow> event list \<times> (error + ChargeDataModel)" where
  "main fs filesToLoad = main_loop fs new_model filesToLoad []"

section \<open>Vocabulary of the specification\<close>

text \<open>
  The lines of a text that end in a newline character, without that character. What
  follows the last newline is not among them.
\<close>

primrec terminated_lines :: "string \<Rightarrow> string list" where
  "terminated_lines [] = []"
| "terminated_lines (c # cs) =
     (if c = newline then [] # terminated_lines cs
      else (case terminated_lines cs of [] \<Rightarrow> [] | l # ls \<Rightarrow> (c # l) # ls))"

text \<open>
  The lines of a text as a reader counts them: a last line need not end in a newline
  character.
\<close>

definition file_lines :: "string \<Rightarrow> string list" where
  "file_lines c =
     (if c = [] \<or> last c = newline then terminated_lines c
      else terminated_lines (c @ [newline]))"

text \<open>
  The decision of the loop body on one line, from the test
  \<^verbatim>\<open>possibleCharge < 0.0 || !emptyTest.empty()\<close>: the value stored, or \<open>None\<close> for a
  line that is skipped.
\<close>

definition accept :: "string \<Rightarrow> double option" where
  "accept line =
     (case readCandidate line of
        (possibleCharge, emptyTest) \<Rightarrow>
          if possibleCharge < 0 \<or> emptyTest \<noteq> [] then None else Some possibleCharge)"

text \<open>The lines the loop reads: as many terminated lines as \<^verbatim>\<open>getLineCount\<close> counted.\<close>

definition read_lines :: "string \<Rightarrow> string list" where
  "read_lines c = take (unat (of_nat (count_list c newline) :: uint)) (terminated_lines c)"

definition accepted_values :: "string \<Rightarrow> double list" where
  "accepted_values c = List.map_filter accept (read_lines c)"

text \<open>
  The Loader of the specification, \<open>load(path)\<close>, as \<^verbatim>\<open>main\<close> drives the code: a fresh
  model is initialised with the path and asked for its data. The Dataset is the first
  \<^verbatim>\<open>size\<close> cells of the array, returned with \<^verbatim>\<open>size\<close>.
\<close>

definition load ::
  "filesystem \<Rightarrow> string \<Rightarrow> event list \<times> (error + double option list \<times> uint)" where
  "load fs path =
     (case getChargeData fs (init new_model path) None [] of
        (out, Inl e) \<Rightarrow> (out, Inl e)
      | (out, Inr (m, None, sz)) \<Rightarrow> (out, Inl Uninitialised)
      | (out, Inr (m, Some data, None)) \<Rightarrow> (out, Inl Uninitialised)
      | (out, Inr (m, Some data, Some sz)) \<Rightarrow> (out, Inr (take (unat sz) data, sz)))"

text \<open>
  A valid line in the words of the specification: after trimming, the whole line is one
  floating-point token, and its value is not negative.
\<close>

definition valid_line :: "string \<Rightarrow> bool" where
  "valid_line line \<longleftrightarrow>
     (case num_get_double (trim line) of (v, fail, rest) \<Rightarrow> \<not> fail \<and> rest = [] \<and> 0 \<le> v)"

definition line_value :: "string \<Rightarrow> double" where
  "line_value line = fst (num_get_double (trim line))"

text \<open>The Dataset the specification promises for a file content.\<close>

definition spec_Dataset :: "string \<Rightarrow> double list" where
  "spec_Dataset c = map line_value (filter valid_line (file_lines c))"

text \<open>
  A line that is one floating-point token and yields a negative value; a line that is
  not empty after trimming and on which the extraction of the number raises
  \<^verbatim>\<open>failbit\<close>.
\<close>

definition negative_line :: "string \<Rightarrow> bool" where
  "negative_line line \<longleftrightarrow>
     (case num_get_double (trim line) of (v, fail, rest) \<Rightarrow> rest = [] \<and> v < 0)"

definition extraction_fails :: "string \<Rightarrow> bool" where
  "extraction_fails line \<longleftrightarrow>
     trim line \<noteq> [] \<and> (case num_get_double (trim line) of (v, fail, rest) \<Rightarrow> fail)"

text \<open>
  A floating-point token: a text that is, as a whole, a number with a mantissa digit
  and, after an exponent mark, an exponent digit.
\<close>

definition parseable_token :: "string \<Rightarrow> bool" where
  "parseable_token tok \<longleftrightarrow>
     (case scan_float tok of (fld, rest) \<Rightarrow> rest = [] \<and> well_formed fld)"

text \<open>
  A line with trailing content in the words of the specification: the trimmed line
  is not a floating-point token, but it begins with one.
\<close>

definition trailing_garbage :: "string \<Rightarrow> bool" where
  "trailing_garbage line \<longleftrightarrow>
     \<not> parseable_token (trim line)
     \<and> list_ex (\<lambda>n. parseable_token (take n (trim line))) [1..<length (trim line)]"

text \<open>
  The totals of a summation loop that starts from \<open>tot\<close> and adds the values in
  order are all within the range of a double.
\<close>

primrec partial_sums_finite :: "real \<Rightarrow> real list \<Rightarrow> bool" where
  "partial_sums_finite tot [] = True"
| "partial_sums_finite tot (x # xs) \<longleftrightarrow>
     \<not> overflows (tot + x) \<and> partial_sums_finite (tot + x) xs"

text \<open>A model that holds no file and no data, as after construction or \<^verbatim>\<open>dispose\<close>.\<close>

definition idle :: "ChargeDataModel \<Rightarrow> bool" where
  "idle m \<longleftrightarrow> \<not> is_open (m_file m) \<and> m_charges m = None"

text \<open>The paths of the files whose results \<^verbatim>\<open>main\<close> printed, in order.\<close>

fun reported :: "event list \<Rightarrow> string list" where
  "reported [] = []"
| "reported (FileReport path mean err sd # es) = path # reported es"
| "reported (e # es) = reported es"

section \<open>Properties of the loading loop\<close>

declare total_loop.simps [simp del] load_loop.simps [simp del]

text \<open>The definitions that evaluate a line and a file on concrete input.\<close>

lemmas line_eval =
  accept_def readCandidate_def trim_def ltrim_def rtrim_def isspace_def
  extract_double_def extract_string_def sentry_def sstream_of_def
  num_get_double_def scan_float_def take_sign_def take_point_def scan_exponent_def
  isdigit_def well_formed_def exact_value_def nat_of_digits_def digit_val_def pow10_def
  overflows_def underflows_def

lemmas file_eval =
  accepted_values_def read_lines_def newline_def List.map_filter_simps

lemmas spec_eval =
  valid_line_def line_value_def negative_line_def extraction_fails_def
  spec_Dataset_def file_lines_def trailing_garbage_def parseable_token_def

lemma word_succ_unat: "(i::uint) < m \<Longrightarrow> unat (i + 1) = Suc (unat i)"
proof -
  assume lt: "i < m"
  have "unat i < unat m" using lt by (simp add: word_less_nat_alt)
  moreover have "unat m < 2 ^ 32" using unsigned_less [of m, where 'a = nat] by simp
  ultimately have "unat i + unat (1 :: uint) < 2 ^ LENGTH(32)" by simp
  then show ?thesis by (simp add: unat_add_lem [THEN iffD1])
qed

lemma unat_of_nat32: "n < 2 ^ 32 \<Longrightarrow> unat (of_nat n :: uint) = n"
  by (simp add: unat_of_nat)

lemma unat_less_2p32: "unat (w :: uint) < 2 ^ 32"
  using unsigned_less [of w, where 'a = nat] by simp

subsection \<open>Lines\<close>

lemma terminated_lines_no_newline: "newline \<notin> set t \<Longrightarrow> terminated_lines t = []"
  by (induction t) auto

lemma terminated_lines_line:
  "newline \<notin> set l \<Longrightarrow> terminated_lines (l @ newline # rest) = l # terminated_lines rest"
  by (induction l) auto

lemma length_terminated_lines: "length (terminated_lines c) = count_list c newline"
  by (induction c) (auto split: list.splits)

lemma terminated_lines_append_tail:
  "newline \<notin> set t \<Longrightarrow> terminated_lines (c @ t) = terminated_lines c"
  by (induction c) (auto simp: terminated_lines_no_newline)

lemma count_list_append_tail:
  "newline \<notin> set t \<Longrightarrow> count_list (c @ t) newline = count_list c newline"
  by (induction c) auto

lemma terminated_lines_append:
  "A = [] \<or> last A = newline \<Longrightarrow>
   terminated_lines (A @ B) = terminated_lines A @ terminated_lines B"
proof (induction A)
  case Nil
  then show ?case by simp
next
  case (Cons c cs)
  show ?case
  proof (cases "c = newline")
    case True
    then show ?thesis using Cons by (cases "cs = []") auto
  next
    case False
    then have ne: "cs \<noteq> []" and la: "last cs = newline" using Cons.prems by (auto split: if_splits)
    then have ih: "terminated_lines (cs @ B) = terminated_lines cs @ terminated_lines B"
      using Cons.IH by simp
    have "newline \<in> set cs" using ne la last_in_set by metis
    then have "count_list cs newline \<noteq> 0" by (simp add: count_list_0_iff)
    then have "terminated_lines cs \<noteq> []" using length_terminated_lines [of cs] by auto
    then show ?thesis using False ih by (auto split: list.splits)
  qed
qed

lemma split_at_newline:
  "newline \<in> set u \<Longrightarrow>
   u = takeWhile (\<lambda>c. c \<noteq> newline) u @ newline # tl (dropWhile (\<lambda>c. c \<noteq> newline) u)"
proof -
  assume "newline \<in> set u"
  then have "dropWhile (\<lambda>c. c \<noteq> newline) u \<noteq> []" by simp
  then have "dropWhile (\<lambda>c. c \<noteq> newline) u = newline # tl (dropWhile (\<lambda>c. c \<noteq> newline) u)"
    using hd_dropWhile [of "\<lambda>c. c \<noteq> newline" u] by (cases "dropWhile (\<lambda>c. c \<noteq> newline) u") auto
  then show ?thesis using takeWhile_dropWhile_id [of "\<lambda>c. c \<noteq> newline" u] by simp
qed

lemma getline_terminated:
  assumes "\<not> feof f" "\<not> ffail f" "newline \<in> set (unread f)"
  shows "\<exists>l rest. getline f = (l, f\<lparr>unread := rest\<rparr>)
           \<and> terminated_lines (unread f) = l # terminated_lines rest
           \<and> count_list (unread f) newline = Suc (count_list rest newline)"
proof -
  let ?l = "takeWhile (\<lambda>c. c \<noteq> newline) (unread f)"
  let ?r = "tl (dropWhile (\<lambda>c. c \<noteq> newline) (unread f))"
  have u: "unread f = ?l @ newline # ?r" using assms(3) by (rule split_at_newline)
  have nl: "newline \<notin> set ?l" by (auto dest: set_takeWhileD)
  have g: "getline f = (?l, f\<lparr>unread := ?r\<rparr>)" using assms by (simp add: getline_def)
  have t: "terminated_lines (unread f) = ?l # terminated_lines ?r"
    using terminated_lines_line [OF nl, of ?r] u by simp
  have "count_list (?l @ newline # ?r) newline = Suc (count_list ?r newline)"
    using nl by (simp add: count_list_0_iff)
  then have c: "count_list (unread f) newline = Suc (count_list ?r newline)" using u by simp
  show ?thesis using g t c by blast
qed


subsection \<open>The loading loop\<close>

lemma load_loop_done:
  "\<not> i < maxSize \<Longrightarrow>
   load_loop path i maxSize finalSize f charges out = (out, Inr (f, charges, finalSize))"
  by (subst load_loop.simps) simp

lemma load_loop_reject:
  "i < maxSize \<Longrightarrow> getline f = (l, f1) \<Longrightarrow> accept l = None \<Longrightarrow>
   load_loop path i maxSize finalSize f charges out
     = load_loop path (i + 1) maxSize (finalSize - 1) f1 charges (out @ [CorruptDataPoint path])"
  by (subst load_loop.simps) (auto simp: accept_def split: prod.splits if_splits)

lemma load_loop_accept:
  "i < maxSize \<Longrightarrow> getline f = (l, f1) \<Longrightarrow> accept l = Some v \<Longrightarrow>
   unat (i - maxSize + finalSize) < length charges \<Longrightarrow>
   load_loop path i maxSize finalSize f charges out
     = load_loop path (i + 1) maxSize finalSize f1
         (charges[unat (i - maxSize + finalSize) := Some v]) out"
  by (subst load_loop.simps) (auto simp: accept_def split: prod.splits if_splits)

lemma length_map_filter_le: "length (List.map_filter h xs) \<le> length xs"
  by (induction xs) (auto simp: List.map_filter_simps split: option.splits)

lemma store_cell:
  "a < length xs \<Longrightarrow>
   take (Suc a) (xs[a := x]) @ ys @ drop (Suc a + n) (xs[a := x])
     = take a xs @ (x # ys) @ drop (a + Suc n) xs"
  by (simp add: take_Suc_conv_app_nth)

lemma load_loop_run:
  assumes "\<not> feof f" "\<not> ffail f"
    and "d \<le> count_list (unread f) newline"
    and "unat i + d = unat maxSize"
    and "i - maxSize + finalSize = of_nat a" and "a \<le> unat i"
    and "a + d \<le> length charges"
  shows "\<exists>f'. load_loop path i maxSize finalSize f charges out =
           (out @ replicate (d - length (List.map_filter accept (take d (terminated_lines (unread f)))))
                    (CorruptDataPoint path),
            Inr (f',
                 take a charges
                   @ map Some (List.map_filter accept (take d (terminated_lines (unread f))))
                   @ drop (a + length (List.map_filter accept (take d (terminated_lines (unread f)))))
                       charges,
                 finalSize
                   - of_nat (d - length (List.map_filter accept (take d (terminated_lines (unread f)))))))
         \<and> is_open f' = is_open f \<and> content f' = content f"
  using assms
proof (induction d arbitrary: i finalSize f charges out a)
  case 0
  then have "unat i = unat maxSize" by simp
  then have "\<not> i < maxSize" by (simp add: word_less_nat_alt)
  then show ?case
    by (simp add: load_loop_done List.map_filter_simps)
next
  case (Suc d)
  have lt: "i < maxSize" using Suc.prems(4) by (simp add: word_less_nat_alt)
  have su: "unat (i + 1) = Suc (unat i)" using lt by (rule word_succ_unat)
  have "count_list (unread f) newline \<noteq> 0" using Suc.prems(3) by simp
  then have "newline \<in> set (unread f)" by (simp add: count_list_0_iff)
  from getline_terminated [OF Suc.prems(1,2) this]
  obtain l rest where g: "getline f = (l, f\<lparr>unread := rest\<rparr>)"
    and t: "terminated_lines (unread f) = l # terminated_lines rest"
    and c: "count_list (unread f) newline = Suc (count_list rest newline)"
    by blast
  let ?f1 = "f\<lparr>unread := rest\<rparr>"
  let ?acc = "List.map_filter accept (take d (terminated_lines rest))"
  have len: "length ?acc \<le> d"
    using length_map_filter_le [of accept "take d (terminated_lines rest)"] by simp
  have good: "\<not> feof ?f1" "\<not> ffail ?f1" using Suc.prems(1,2) by simp_all
  have cnt: "d \<le> count_list (unread ?f1) newline" using Suc.prems(3) c by simp
  have it: "unat (i + 1) + d = unat maxSize" using Suc.prems(4) su by simp
  show ?case
  proof (cases "accept l")
    case None
    have step: "load_loop path i maxSize finalSize f charges out
        = load_loop path (i + 1) maxSize (finalSize - 1) ?f1 charges (out @ [CorruptDataPoint path])"
      using lt g None by (rule load_loop_reject)
    have "i + 1 - maxSize + (finalSize - 1) = i - maxSize + finalSize" by simp
    then have ix: "i + 1 - maxSize + (finalSize - 1) = of_nat a"
      using Suc.prems(5) by (simp only:)
    have a1: "a \<le> unat (i + 1)" using Suc.prems(6) su by simp
    have a2: "a + d \<le> length charges" using Suc.prems(7) by simp
    from Suc.IH [OF good cnt it ix a1 a2, of "out @ [CorruptDataPoint path]"]
    obtain f' where r: "load_loop path (i + 1) maxSize (finalSize - 1) ?f1 charges
                          (out @ [CorruptDataPoint path]) =
           ((out @ [CorruptDataPoint path]) @ replicate (d - length ?acc) (CorruptDataPoint path),
            Inr (f', take a charges @ map Some ?acc @ drop (a + length ?acc) charges,
                 finalSize - 1 - of_nat (d - length ?acc)))"
      and o: "is_open f' = is_open f" "content f' = content f"
      by auto
    have acc: "List.map_filter accept (take (Suc d) (terminated_lines (unread f))) = ?acc"
      using t None by (simp add: List.map_filter_simps)
    have k: "Suc d - length ?acc = Suc (d - length ?acc)" using len by simp
    have rep: "(out @ [CorruptDataPoint path]) @ replicate (d - length ?acc) (CorruptDataPoint path)
                 = out @ replicate (Suc (d - length ?acc)) (CorruptDataPoint path)"
      by simp
    have fin: "finalSize - 1 - of_nat (d - length ?acc) = finalSize - of_nat (Suc (d - length ?acc))"
      by simp
    show ?thesis
      unfolding step r acc k rep fin using o by simp
  next
    case (Some v)
    have "a < 2 ^ 32" using Suc.prems(6) unat_less_2p32 [of i] by simp
    then have ua: "unat (of_nat a :: uint) = a" by (rule unat_of_nat32)
    have idx: "unat (i - maxSize + finalSize) = a" using Suc.prems(5) ua by simp
    have inb: "a < length charges" using Suc.prems(7) by simp
    have step: "load_loop path i maxSize finalSize f charges out
        = load_loop path (i + 1) maxSize finalSize ?f1 (charges[a := Some v]) out"
      using load_loop_accept [OF lt g Some, of finalSize charges path out] idx inb by simp
    have "i + 1 - maxSize + finalSize = 1 + (i - maxSize + finalSize)" by simp
    then have ix: "i + 1 - maxSize + finalSize = of_nat (Suc a)"
      using Suc.prems(5) by (simp only: of_nat_Suc)
    have a1: "Suc a \<le> unat (i + 1)" using Suc.prems(6) su by simp
    have a2: "Suc a + d \<le> length (charges[a := Some v])" using Suc.prems(7) by simp
    from Suc.IH [OF good cnt it ix a1 a2, of out]
    obtain f' where r: "load_loop path (i + 1) maxSize finalSize ?f1 (charges[a := Some v]) out =
           (out @ replicate (d - length ?acc) (CorruptDataPoint path),
            Inr (f', take (Suc a) (charges[a := Some v]) @ map Some ?acc
                       @ drop (Suc a + length ?acc) (charges[a := Some v]),
                 finalSize - of_nat (d - length ?acc)))"
      and o: "is_open f' = is_open f" "content f' = content f"
      by auto
    have acc: "List.map_filter accept (take (Suc d) (terminated_lines (unread f))) = v # ?acc"
      using t Some by (simp add: List.map_filter_simps)
    have arr: "take (Suc a) (charges[a := Some v]) @ map Some ?acc
                 @ drop (Suc a + length ?acc) (charges[a := Some v])
               = take a charges @ map Some (v # ?acc) @ drop (a + length (v # ?acc)) charges"
      using store_cell [OF inb, of "Some v" "map Some ?acc" "length ?acc"] by simp
    have k: "Suc d - length (v # ?acc) = d - length ?acc" by simp
    show ?thesis
      unfolding step r acc arr k using o by simp
  qed
qed


subsection \<open>Loading one file\<close>

lemma length_read_lines:
  "length (read_lines c) = unat (of_nat (count_list c newline) :: uint)"
proof -
  have "unat (of_nat (count_list c newline) :: uint) \<le> count_list c newline"
    by (simp add: unat_of_nat)
  then show ?thesis by (simp add: read_lines_def length_terminated_lines)
qed

lemma length_accepted_values: "length (accepted_values c) \<le> length (read_lines c)"
  by (simp add: accepted_values_def length_map_filter_le)

lemma unat_length_accepted:
  "unat (of_nat (length (accepted_values c)) :: uint) = length (accepted_values c)"
proof -
  have "length (accepted_values c) \<le> unat (of_nat (count_list c newline) :: uint)"
    using length_accepted_values [of c] by (simp add: length_read_lines)
  then have "length (accepted_values c) < 2 ^ 32"
    using unat_less_2p32 [of "of_nat (count_list c newline)"] by simp
  then show ?thesis by (rule unat_of_nat32)
qed

lemma loadDataFromFile_opened:
  assumes "\<not> is_open (m_file m)" and "fs (m_filepath m) = Some c"
  shows "\<exists>f'. loadDataFromFile fs m out =
           (out @ replicate (length (read_lines c) - length (accepted_values c))
                    (CorruptDataPoint (m_filepath m)),
            Inr (m\<lparr>m_file := f',
                   m_charges := Some (map Some (accepted_values c)
                     @ replicate (length (read_lines c) - length (accepted_values c)) None)\<rparr>,
                 of_nat (length (accepted_values c))))
         \<and> is_open f'"
proof -
  let ?f = "\<lparr>is_open = True, content = c, unread = c, feof = False, ffail = False\<rparr>"
  let ?m1 = "m\<lparr>m_file := ?f\<rparr>"
  let ?maxSize = "of_nat (count_list c newline) :: uint"
  let ?d = "unat ?maxSize"
  let ?acc = "accepted_values c"
  have op: "(if is_open (m_file m) then (True, m) else openFile fs m) = (True, ?m1)"
    using assms by (simp add: openFile_def)
  have lc: "getLineCount (m_file ?m1) = (?maxSize, ?f)"
    by (simp add: getLineCount_def)
  have d: "?d \<le> count_list (unread ?f) newline" by (simp add: unat_of_nat)
  have acc: "List.map_filter accept (take ?d (terminated_lines (unread ?f))) = ?acc"
    by (simp add: accepted_values_def read_lines_def)
  have len: "length (read_lines c) = ?d" by (rule length_read_lines)
  have le: "length ?acc \<le> ?d" using length_accepted_values [of c] len by simp
  from load_loop_run [of ?f ?d 0 ?maxSize ?maxSize 0 "replicate ?d None" "m_filepath m" out] d
  obtain f' where r: "load_loop (m_filepath m) 0 ?maxSize ?maxSize ?f (replicate ?d None) out =
           (out @ replicate (?d - length ?acc) (CorruptDataPoint (m_filepath m)),
            Inr (f', map Some ?acc @ drop (length ?acc) (replicate ?d None),
                 ?maxSize - of_nat (?d - length ?acc)))"
    and o: "is_open f'"
    unfolding acc by auto
  have "(of_nat (?d - length ?acc) :: uint) = of_nat ?d - of_nat (length ?acc)"
    using le by (rule of_nat_diff)
  then have fin: "?maxSize - of_nat (?d - length ?acc) = of_nat (length ?acc)" by simp
  have "loadDataFromFile fs m out =
           (out @ replicate (?d - length ?acc) (CorruptDataPoint (m_filepath m)),
            Inr (?m1\<lparr>m_file := f',
                   m_charges := Some (map Some ?acc @ replicate (?d - length ?acc) None)\<rparr>,
                 of_nat (length ?acc)))"
    unfolding loadDataFromFile_def op using lc r fin by simp
  then show ?thesis using o len by auto
qed

lemma loadDataFromFile_missing:
  assumes "\<not> is_open (m_file m)" and "fs (m_filepath m) = None"
  shows "loadDataFromFile fs m out = (out @ [CouldNotOpen (m_filepath m)], Inl ProcessExit)"
  using assms by (simp add: loadDataFromFile_def openFile_def)

lemma getChargeData_opened:
  assumes "idle m" and "fs p = Some c"
  shows "\<exists>m'. getChargeData fs (init m p) sz out =
           (out @ replicate (length (read_lines c) - length (accepted_values c)) (CorruptDataPoint p),
            Inr (m',
                 Some (map Some (accepted_values c)
                   @ replicate (length (read_lines c) - length (accepted_values c)) None),
                 Some (of_nat (length (accepted_values c)))))
         \<and> is_open (m_file m') \<and> m_filepath m' = p
         \<and> m_charges m' = Some (map Some (accepted_values c)
                   @ replicate (length (read_lines c) - length (accepted_values c)) None)"
proof -
  have a: "\<not> is_open (m_file (init m p))" "m_charges (init m p) = None"
    and b: "fs (m_filepath (init m p)) = Some c" and pth: "m_filepath (init m p) = p"
    using assms by (simp_all add: idle_def init_def)
  from loadDataFromFile_opened [where m = "init m p" and fs = fs and c = c and out = out, OF a(1) b] obtain f' where
    r: "loadDataFromFile fs (init m p) out =
           (out @ replicate (length (read_lines c) - length (accepted_values c)) (CorruptDataPoint p),
            Inr ((init m p)\<lparr>m_file := f',
                   m_charges := Some (map Some (accepted_values c)
                     @ replicate (length (read_lines c) - length (accepted_values c)) None)\<rparr>,
                 of_nat (length (accepted_values c))))"
    and o: "is_open f'"
    unfolding pth by blast
  show ?thesis
    unfolding getChargeData_def using a(2) r o pth by simp
qed

lemma getChargeData_missing:
  assumes "idle m" and "fs p = None"
  shows "getChargeData fs (init m p) sz out = (out @ [CouldNotOpen p], Inl ProcessExit)"
proof -
  have a: "\<not> is_open (m_file (init m p))" "m_charges (init m p) = None"
    and b: "fs (m_filepath (init m p)) = None" and pth: "m_filepath (init m p) = p"
    using assms by (simp_all add: idle_def init_def)
  show ?thesis
    unfolding getChargeData_def
    using a(2) loadDataFromFile_missing [where m = "init m p" and fs = fs and out = out, OF a(1) b] pth
    by simp
qed

lemma idle_new_model: "idle new_model"
  by (simp add: idle_def new_model_def closed_file_def)

lemma idle_dispose: "idle (dispose m)"
  by (simp add: idle_def dispose_def)

lemma load_opened:
  assumes "fs p = Some c"
  shows "load fs p =
           (replicate (length (read_lines c) - length (accepted_values c)) (CorruptDataPoint p),
            Inr (map Some (accepted_values c), of_nat (length (accepted_values c))))"
proof -
  from getChargeData_opened [where m = new_model and fs = fs and p = p and c = c and sz = None
      and out = "[]", OF idle_new_model assms] obtain m' where
    "getChargeData fs (init new_model p) None [] =
           ([] @ replicate (length (read_lines c) - length (accepted_values c)) (CorruptDataPoint p),
            Inr (m',
                 Some (map Some (accepted_values c)
                   @ replicate (length (read_lines c) - length (accepted_values c)) None),
                 Some (of_nat (length (accepted_values c)))))"
    by blast
  then show ?thesis
    by (simp add: load_def unat_length_accepted)
qed

lemma load_missing:
  assumes "fs p = None"
  shows "load fs p = ([CouldNotOpen p], Inl ProcessExit)"
  using getChargeData_missing [where m = new_model and fs = fs and p = p and sz = None
      and out = "[]", OF idle_new_model assms]
  by (simp add: load_def)


subsection \<open>Trimmed lines\<close>

lemma rtrim_prefix: "\<exists>sp. s = rtrim s @ sp"
proof -
  have "rev (rev s) = rev (takeWhile isspace (rev s) @ dropWhile isspace (rev s))"
    by (simp only: takeWhile_dropWhile_id)
  then have "s = rev (dropWhile isspace (rev s)) @ rev (takeWhile isspace (rev s))"
    by (simp only: rev_rev_ident rev_append)
  then have "s = rtrim s @ rev (takeWhile isspace (rev s))"
    by (simp only: rtrim_def)
  then show ?thesis by blast
qed

lemma trim_last: "trim s \<noteq> [] \<Longrightarrow> \<not> isspace (last (trim s))"
proof -
  assume ne: "trim s \<noteq> []"
  let ?d = "dropWhile isspace (rev (ltrim s))"
  have d: "?d \<noteq> []" using ne by (simp add: trim_def rtrim_def)
  then have "\<not> isspace (hd ?d)" by (rule hd_dropWhile)
  moreover have "last (trim s) = hd ?d"
    using d by (simp add: trim_def rtrim_def last_rev)
  ultimately show ?thesis by simp
qed

lemma trim_hd: "trim s \<noteq> [] \<Longrightarrow> \<not> isspace (hd (trim s))"
proof -
  assume ne: "trim s \<noteq> []"
  obtain sp where p: "ltrim s = trim s @ sp"
    using rtrim_prefix [of "ltrim s"] by (auto simp: trim_def)
  then have l: "ltrim s \<noteq> []" using ne by auto
  then have "\<not> isspace (hd (ltrim s))" unfolding ltrim_def by (rule hd_dropWhile)
  moreover have "hd (ltrim s) = hd (trim s)" using p ne by (metis hd_append2)
  ultimately show ?thesis by simp
qed

lemma dropWhile_trim: "dropWhile isspace (trim s) = trim s"
proof (cases "trim s")
  case Nil
  then show ?thesis by simp
next
  case (Cons c cs)
  then have "\<not> isspace c" using trim_hd [of s] by simp
  then show ?thesis using Cons by simp
qed

subsection \<open>Extraction from a trimmed line\<close>

lemma take_sign_suffix: "take_sign s = (sg, r) \<Longrightarrow> s = sg @ r"
  by (auto simp: take_sign_def split: list.splits if_splits)

lemma take_point_suffix: "\<exists>p. s = p @ take_point s"
  by (cases s) (auto simp: take_point_def)

lemma scan_exponent_suffix: "scan_exponent b s = (mark, esg, ex, rest) \<Longrightarrow> \<exists>p. s = p @ rest"
proof (cases s)
  case Nil
  assume "scan_exponent b s = (mark, esg, ex, rest)"
  then show ?thesis using Nil by (simp add: scan_exponent_def)
next
  case (Cons c r)
  assume a: "scan_exponent b s = (mark, esg, ex, rest)"
  show ?thesis
  proof (cases "(c = CHR ''e'' \<or> c = CHR ''E'') \<and> b")
    case True
    obtain sg r' where ts: "take_sign r = (sg, r')" by (cases "take_sign r")
    then have r: "r = sg @ r'" by (rule take_sign_suffix)
    have "rest = dropWhile isdigit r'" using a Cons True ts by (simp add: scan_exponent_def)
    then have "r' = takeWhile isdigit r' @ rest" by simp
    then have "s = (c # sg @ takeWhile isdigit r') @ rest" using Cons r by simp
    then show ?thesis by blast
  next
    case False
    then have "rest = s" using a Cons by (auto simp: scan_exponent_def)
    then show ?thesis by simp
  qed
qed

lemma scan_float_suffix: "scan_float s = (fld, rest) \<Longrightarrow> \<exists>p. s = p @ rest"
proof -
  assume a: "scan_float s = (fld, rest)"
  obtain sg s1 where ts: "take_sign s = (sg, s1)" by (cases "take_sign s")
  then have s: "s = sg @ s1" by (rule take_sign_suffix)
  let ?s2 = "take_point (dropWhile isdigit s1)"
  let ?s3 = "dropWhile isdigit ?s2"
  obtain mark esg ex r where se:
    "scan_exponent (takeWhile isdigit s1 @ takeWhile isdigit ?s2 \<noteq> []) ?s3 = (mark, esg, ex, r)"
    by (cases "scan_exponent (takeWhile isdigit s1 @ takeWhile isdigit ?s2 \<noteq> []) ?s3")
  then obtain p3 where p3: "?s3 = p3 @ r" using scan_exponent_suffix by blast
  have rr: "rest = r" using a ts se by (simp add: scan_float_def Let_def)
  obtain p2 where p2: "dropWhile isdigit s1 = p2 @ ?s2" using take_point_suffix by blast
  have "s1 = takeWhile isdigit s1 @ dropWhile isdigit s1" by simp
  also have "\<dots> = takeWhile isdigit s1 @ p2 @ ?s2" using p2 by simp
  also have "?s2 = takeWhile isdigit ?s2 @ ?s3" by simp
  finally have "s1 = takeWhile isdigit s1 @ p2 @ takeWhile isdigit ?s2 @ p3 @ rest"
    using p3 rr by simp
  then have "s = (sg @ takeWhile isdigit s1 @ p2 @ takeWhile isdigit ?s2 @ p3) @ rest"
    using s by simp
  then show ?thesis by blast
qed

lemma num_get_double_suffix: "num_get_double s = (v, fail, rest) \<Longrightarrow> \<exists>p. s = p @ rest"
proof -
  assume a: "num_get_double s = (v, fail, rest)"
  obtain fld r where sf: "scan_float s = (fld, r)" by (cases "scan_float s")
  then have "rest = r" using a by (auto simp: num_get_double_def split: if_splits)
  then show ?thesis using scan_float_suffix [OF sf] by simp
qed

lemma num_get_double_Nil: "num_get_double [] = (0, True, [])"
  by (simp add: num_get_double_def scan_float_def take_sign_def take_point_def
      scan_exponent_def well_formed_def)

lemma readCandidate_empty: "trim l = [] \<Longrightarrow> readCandidate l = (- 1, [])"
  by (simp add: readCandidate_def extract_double_def extract_string_def sentry_def sstream_of_def)

lemma readCandidate_fail:
  "trim l \<noteq> [] \<Longrightarrow> num_get_double (trim l) = (v, True, rest) \<Longrightarrow> readCandidate l = (v, [])"
  by (simp add: readCandidate_def extract_double_def extract_string_def sentry_def sstream_of_def
      dropWhile_trim)

lemma readCandidate_whole:
  "trim l \<noteq> [] \<Longrightarrow> num_get_double (trim l) = (v, False, []) \<Longrightarrow> readCandidate l = (v, [])"
  by (simp add: readCandidate_def extract_double_def extract_string_def sentry_def sstream_of_def
      dropWhile_trim)

lemma readCandidate_more:
  assumes "trim l \<noteq> []" and "num_get_double (trim l) = (v, False, rest)" and "rest \<noteq> []"
  shows "\<exists>e. readCandidate l = (v, e) \<and> e \<noteq> []"
proof -
  obtain p where p: "trim l = p @ rest" using num_get_double_suffix [OF assms(2)] by blast
  then have "last rest = last (trim l)" using assms(3) by simp
  then have ns: "\<not> isspace (last rest)" using trim_last [OF assms(1)] by simp
  have "last rest \<in> set rest" using assms(3) by simp
  then have d: "dropWhile isspace rest \<noteq> []" using ns by (auto simp: dropWhile_eq_Nil_conv)
  then have "\<not> isspace (hd (dropWhile isspace rest))" by (rule hd_dropWhile)
  then have t: "takeWhile (\<lambda>c. \<not> isspace c) (dropWhile isspace rest) \<noteq> []"
    using d by (cases "dropWhile isspace rest") auto
  show ?thesis
    using assms t d
    by (simp add: readCandidate_def extract_double_def extract_string_def sentry_def
        sstream_of_def dropWhile_trim)
qed

subsection \<open>The decision on a line\<close>

lemma accept_empty: "trim l = [] \<Longrightarrow> accept l = None"
  by (simp add: accept_def readCandidate_empty)

lemma accept_fail:
  "trim l \<noteq> [] \<Longrightarrow> num_get_double (trim l) = (v, True, rest) \<Longrightarrow>
   accept l = (if v < 0 then None else Some v)"
  by (simp add: accept_def readCandidate_fail)

lemma accept_whole:
  "trim l \<noteq> [] \<Longrightarrow> num_get_double (trim l) = (v, False, []) \<Longrightarrow>
   accept l = (if v < 0 then None else Some v)"
  by (simp add: accept_def readCandidate_whole)

lemma accept_more:
  "trim l \<noteq> [] \<Longrightarrow> num_get_double (trim l) = (v, False, rest) \<Longrightarrow> rest \<noteq> [] \<Longrightarrow>
   accept l = None"
  using readCandidate_more [of l v rest] by (auto simp: accept_def)

lemma no_fail_not_empty: "num_get_double (trim l) = (v, False, rest) \<Longrightarrow> trim l \<noteq> []"
  using num_get_double_Nil by auto

lemma accept_valid: "valid_line l \<Longrightarrow> accept l = Some (line_value l)"
proof -
  assume "valid_line l"
  then obtain v where n: "num_get_double (trim l) = (v, False, [])" and v: "0 \<le> v"
    by (auto simp: valid_line_def split: prod.splits)
  have "accept l = (if v < 0 then None else Some v)"
    using no_fail_not_empty [OF n] n by (rule accept_whole)
  then show ?thesis using v n by (simp add: line_value_def)
qed

lemma accept_negative: "negative_line l \<Longrightarrow> accept l = None"
proof -
  assume "negative_line l"
  then obtain v fail where n: "num_get_double (trim l) = (v, fail, [])" and v: "v < 0"
    by (auto simp: negative_line_def split: prod.splits)
  have ne: "trim l \<noteq> []" using n v num_get_double_Nil by auto
  show ?thesis
  proof (cases fail)
    case True
    then show ?thesis using accept_fail [OF ne, of v "[]"] n v by simp
  next
    case False
    then show ?thesis using accept_whole [OF ne, of v] n v by simp
  qed
qed

lemma accept_invalid:
  assumes "\<not> valid_line l" and "\<not> extraction_fails l"
  shows "accept l = None"
proof (cases "trim l = []")
  case True
  then show ?thesis by (rule accept_empty)
next
  case False
  obtain v fail rest where n: "num_get_double (trim l) = (v, fail, rest)"
    by (cases "num_get_double (trim l)")
  have nf: "\<not> fail" using assms(2) False n by (simp add: extraction_fails_def)
  show ?thesis
  proof (cases "rest = []")
    case True
    then have "v < 0" using assms(1) n nf by (simp add: valid_line_def)
    then show ?thesis using accept_whole [OF False, of v] n nf True by simp
  next
    case False
    then show ?thesis using accept_more [OF \<open>trim l \<noteq> []\<close>, of v rest] n nf by simp
  qed
qed

lemma map_filter_accept_valid:
  "\<forall>l \<in> set ls. \<not> extraction_fails l \<Longrightarrow>
   List.map_filter accept ls = map line_value (filter valid_line ls)"
proof (induction ls)
  case Nil
  then show ?case by (simp add: List.map_filter_simps)
next
  case (Cons l ls)
  then have ih: "List.map_filter accept ls = map line_value (filter valid_line ls)" by simp
  show ?case
  proof (cases "valid_line l")
    case True
    then show ?thesis using ih by (simp add: List.map_filter_simps accept_valid)
  next
    case False
    moreover have "\<not> extraction_fails l" using Cons.prems by simp
    ultimately have "accept l = None" by (rule accept_invalid)
    then show ?thesis using ih False by (simp add: List.map_filter_simps)
  qed
qed

text \<open>
  The decision on some lines. A line on which the extraction of the number fails is
  stored with the value the failed extraction left, zero or the largest double,
  whatever follows the number.
\<close>

lemma accept_examples:
  "accept [] = None"
  "accept ''   '' = None"
  "accept '' 2.5 '' = Some (5 / 2)"
  "accept ''3.2 abc'' = None"
  "accept ''3.2abc'' = None"
  "accept ''foo'' = Some 0"
  "accept ''-'' = Some 0"
  "accept ''3.2e'' = Some 0"
  "accept ''1.6eV'' = Some 0"
  "accept ''3.2e abc'' = Some 0"
  by (simp_all add: line_eval)

subsection \<open>Files with fewer than \<open>2^32\<close> newline characters\<close>

lemma read_lines_all: "count_list c newline < 2 ^ 32 \<Longrightarrow> read_lines c = terminated_lines c"
  by (simp add: read_lines_def unat_of_nat32 length_terminated_lines)

lemma length_map_filter_None:
  "length (List.map_filter h xs) + length (filter (\<lambda>x. h x = None) xs) = length xs"
  by (induction xs) (auto simp: List.map_filter_simps split: option.splits)

lemma length_filter_mono:
  "\<forall>x \<in> set xs. P x \<longrightarrow> Q x \<Longrightarrow> length (filter P xs) \<le> length (filter Q xs)"
  by (induction xs) auto

lemma map_filter_append:
  "List.map_filter h (xs @ ys) = List.map_filter h xs @ List.map_filter h ys"
  by (simp add: List.map_filter_def)

lemma excluded_line:
  assumes "accept l = None" and "newline \<notin> set l" and "A = [] \<or> last A = newline"
    and "count_list (A @ l @ newline # B) newline < 2 ^ 32"
  shows "snd (load [p \<mapsto> A @ l @ newline # B] p) = snd (load [p \<mapsto> A @ B] p)
       \<and> fst (load [p \<mapsto> A @ l @ newline # B] p) = CorruptDataPoint p # fst (load [p \<mapsto> A @ B] p)"
proof -
  let ?big = "A @ l @ newline # B" and ?small = "A @ B"
  have cs: "count_list ?small newline < 2 ^ 32" using assms(4) by simp
  have tb: "terminated_lines ?big = terminated_lines A @ l # terminated_lines B"
    using terminated_lines_append [OF assms(3), of "l @ newline # B"]
      terminated_lines_line [OF assms(2), of B] by simp
  have ts: "terminated_lines ?small = terminated_lines A @ terminated_lines B"
    using assms(3) by (rule terminated_lines_append)
  have rb: "read_lines ?big = terminated_lines A @ l # terminated_lines B"
    using read_lines_all [OF assms(4)] tb by simp
  have rs: "read_lines ?small = terminated_lines A @ terminated_lines B"
    using read_lines_all [OF cs] ts by simp
  have acc: "accepted_values ?big = accepted_values ?small"
    unfolding accepted_values_def rb rs using assms(1)
    by (simp add: map_filter_append List.map_filter_simps)
  have len: "length (read_lines ?big) = Suc (length (read_lines ?small))"
    unfolding rb rs by simp
  have le: "length (accepted_values ?small) \<le> length (read_lines ?small)"
    by (rule length_accepted_values)
  have k: "length (read_lines ?big) - length (accepted_values ?big)
             = Suc (length (read_lines ?small) - length (accepted_values ?small))"
    unfolding acc len using le by simp
  have b: "load [p \<mapsto> ?big] p =
             (replicate (length (read_lines ?big) - length (accepted_values ?big)) (CorruptDataPoint p),
              Inr (map Some (accepted_values ?big), of_nat (length (accepted_values ?big))))"
    by (rule load_opened [where fs = "[p \<mapsto> ?big]" and p = p and c = ?big]) simp
  have s: "load [p \<mapsto> ?small] p =
             (replicate (length (read_lines ?small) - length (accepted_values ?small)) (CorruptDataPoint p),
              Inr (map Some (accepted_values ?small), of_nat (length (accepted_values ?small))))"
    by (rule load_opened [where fs = "[p \<mapsto> ?small]" and p = p and c = ?small]) simp
  show ?thesis unfolding b s using k acc by simp
qed

section \<open>The Loader of the specification\<close>

text \<open>
  Claim C1 says that a line without a parseable number, such as \<open>foo\<close>, is rejected and
  that the content \<open>1.0\<newline>foo\<newline>3.0\<newline>\<close> loads as \<open>[1.0, 3.0]\<close>. The code does reject a
  line that is empty after trimming (\<open>accept_empty\<close>), but on \<open>foo\<close> the failed
  extraction stores zero in \<^verbatim>\<open>possibleCharge\<close>, which erases the initial \<open>-1.0\<close>, and
  leaves \<^verbatim>\<open>emptyTest\<close> empty, so the line passes the test: the file loads as
  \<open>[1.0, 0.0, 3.0]\<close> with size 3 and no diagnostic.
\<close>

theorem load_non_numeric_line_stored_as_zero:
  "load [''millikan.dat'' \<mapsto> ''1.0\<newline>foo\<newline>3.0\<newline>''] ''millikan.dat''
     = ([], Inr ([Some 1, Some 0, Some 3], 3))"
proof -
  have a: "accepted_values ''1.0\<newline>foo\<newline>3.0\<newline>'' = [1, 0, 3]"
    by (simp add: file_eval line_eval)
  have r: "read_lines ''1.0\<newline>foo\<newline>3.0\<newline>'' = [''1.0'', ''foo'', ''3.0'']"
    by (simp add: file_eval)
  have "[''millikan.dat'' \<mapsto> ''1.0\<newline>foo\<newline>3.0\<newline>''] ''millikan.dat''
          = Some ''1.0\<newline>foo\<newline>3.0\<newline>''"
    by simp
  from load_opened [where fs = "[''millikan.dat'' \<mapsto> ''1.0\<newline>foo\<newline>3.0\<newline>'']"
      and p = "''millikan.dat''" and c = "''1.0\<newline>foo\<newline>3.0\<newline>''", OF this]
  show ?thesis
    by (simp add: a r)
qed

text \<open>
  Claim C2 as stated: the Dataset of every file is the list of the values of its valid
  lines. It fails on the content \<open>foo\<newline>2.0\<close>: the only valid line, \<open>2.0\<close>, has no
  newline after it and is never read, and the line \<open>foo\<close> is stored as zero.
\<close>

theorem load_spec_Dataset_counterexample:
  "snd (load [''millikan.dat'' \<mapsto> ''foo\<newline>2.0''] ''millikan.dat'')
     \<noteq> Inr (map Some (spec_Dataset ''foo\<newline>2.0''),
            of_nat (length (spec_Dataset ''foo\<newline>2.0'')))"
proof -
  have a: "accepted_values ''foo\<newline>2.0'' = [0]"
    by (simp add: file_eval line_eval)
  have r: "read_lines ''foo\<newline>2.0'' = [''foo'']"
    by (simp add: file_eval)
  have s: "spec_Dataset ''foo\<newline>2.0'' = [2]"
    by (simp add: spec_eval newline_def line_eval)
  have "[''millikan.dat'' \<mapsto> ''foo\<newline>2.0''] ''millikan.dat'' = Some ''foo\<newline>2.0''"
    by simp
  from load_opened [where fs = "[''millikan.dat'' \<mapsto> ''foo\<newline>2.0'']"
      and p = "''millikan.dat''" and c = "''foo\<newline>2.0''", OF this]
  show ?thesis
    by (simp add: a r s)
qed

text \<open>
  Claim C2, amended. For every file with fewer than \<open>2^32\<close> newline characters in which
  no newline-terminated line makes the extraction of the number fail on a non-empty
  trimmed line, the Dataset holds exactly the values of the valid newline-terminated
  lines, contiguously from the first cell and in file order, the returned size is their
  number, and one diagnostic is printed for every other newline-terminated line.
\<close>

theorem load_valid_lines:
  assumes "fs p = Some c" and "count_list c newline < 2 ^ 32"
    and "\<forall>l \<in> set (terminated_lines c). \<not> extraction_fails l"
  shows "load fs p =
           (replicate (length (filter (\<lambda>l. \<not> valid_line l) (terminated_lines c))) (CorruptDataPoint p),
            Inr (map Some (map line_value (filter valid_line (terminated_lines c))),
                 of_nat (length (filter valid_line (terminated_lines c)))))"
proof -
  have r: "read_lines c = terminated_lines c" using assms(2) by (rule read_lines_all)
  have a: "accepted_values c = map line_value (filter valid_line (terminated_lines c))"
    unfolding accepted_values_def r using assms(3) by (rule map_filter_accept_valid)
  have "length (terminated_lines c)
          = length (filter valid_line (terminated_lines c))
            + length (filter (\<lambda>l. \<not> valid_line l) (terminated_lines c))"
    by (simp add: sum_length_filter_compl)
  then have k: "length (read_lines c) - length (accepted_values c)
                  = length (filter (\<lambda>l. \<not> valid_line l) (terminated_lines c))"
    unfolding r a by simp
  show ?thesis
    using load_opened [where fs = fs and p = p and c = c, OF assms(1)] k a by simp
qed

theorem load_valid_lines_witness:
  "[''millikan.dat'' \<mapsto> ''1.0\<newline>2.0\<newline>3.0\<newline>''] ''millikan.dat'' = Some ''1.0\<newline>2.0\<newline>3.0\<newline>''
   \<and> count_list ''1.0\<newline>2.0\<newline>3.0\<newline>'' newline < 2 ^ 32
   \<and> \<not> extraction_fails ''1.0'' \<and> \<not> extraction_fails ''2.0'' \<and> \<not> extraction_fails ''3.0''
   \<and> load [''millikan.dat'' \<mapsto> ''1.0\<newline>2.0\<newline>3.0\<newline>''] ''millikan.dat''
       = ([], Inr ([Some 1, Some 2, Some 3], 3))"
proof -
  have h1: "[''millikan.dat'' \<mapsto> ''1.0\<newline>2.0\<newline>3.0\<newline>''] ''millikan.dat'' = Some ''1.0\<newline>2.0\<newline>3.0\<newline>''"
    by simp
  have h2: "count_list ''1.0\<newline>2.0\<newline>3.0\<newline>'' newline < 2 ^ 32"
    by (simp add: newline_def)
  have t: "terminated_lines ''1.0\<newline>2.0\<newline>3.0\<newline>'' = [''1.0'', ''2.0'', ''3.0'']"
    by (simp add: newline_def)
  have h3: "\<forall>l \<in> set (terminated_lines ''1.0\<newline>2.0\<newline>3.0\<newline>''). \<not> extraction_fails l"
    unfolding t by (simp add: spec_eval line_eval)
  have v: "filter valid_line [''1.0'', ''2.0'', ''3.0''] = [''1.0'', ''2.0'', ''3.0'']"
    "filter (\<lambda>l. \<not> valid_line l) [''1.0'', ''2.0'', ''3.0''] = []"
    "map line_value [''1.0'', ''2.0'', ''3.0''] = [1, 2, 3]"
    by (simp_all add: spec_eval line_eval)
  have e: "\<not> extraction_fails ''1.0''" "\<not> extraction_fails ''2.0''" "\<not> extraction_fails ''3.0''"
    using h3 unfolding t by simp_all
  show ?thesis
    using h1 h2 e
      load_valid_lines [where fs = "[''millikan.dat'' \<mapsto> ''1.0\<newline>2.0\<newline>3.0\<newline>'']"
        and p = "''millikan.dat''" and c = "''1.0\<newline>2.0\<newline>3.0\<newline>''", OF h1 h2 h3]
    unfolding t v by simp
qed

text \<open>
  Claim C7. A line that, after trimming, is one floating-point token with a negative
  value is excluded: in a file with fewer than \<open>2^32\<close> newline characters, the Dataset
  and the size are those of the file without that line, and one diagnostic more is
  printed. The content \<open>-1.0\<newline>2.0\<newline>\<close> loads as \<open>[2.0]\<close>.
\<close>

theorem negative_line_excluded:
  "(negative_line l \<and> newline \<notin> set l \<and> (A = [] \<or> last A = newline)
      \<and> count_list (A @ l @ newline # B) newline < 2 ^ 32 \<longrightarrow>
      snd (load [p \<mapsto> A @ l @ newline # B] p) = snd (load [p \<mapsto> A @ B] p)
      \<and> fst (load [p \<mapsto> A @ l @ newline # B] p) = CorruptDataPoint p # fst (load [p \<mapsto> A @ B] p))
   \<and> load [''millikan.dat'' \<mapsto> ''-1.0\<newline>2.0\<newline>''] ''millikan.dat''
       = ([CorruptDataPoint ''millikan.dat''], Inr ([Some 2], 1))"
proof
  show "negative_line l \<and> newline \<notin> set l \<and> (A = [] \<or> last A = newline)
      \<and> count_list (A @ l @ newline # B) newline < 2 ^ 32 \<longrightarrow>
      snd (load [p \<mapsto> A @ l @ newline # B] p) = snd (load [p \<mapsto> A @ B] p)
      \<and> fst (load [p \<mapsto> A @ l @ newline # B] p) = CorruptDataPoint p # fst (load [p \<mapsto> A @ B] p)"
  proof
    assume h: "negative_line l \<and> newline \<notin> set l \<and> (A = [] \<or> last A = newline)
      \<and> count_list (A @ l @ newline # B) newline < 2 ^ 32"
    then have "accept l = None" by (simp add: accept_negative)
    then show "snd (load [p \<mapsto> A @ l @ newline # B] p) = snd (load [p \<mapsto> A @ B] p)
      \<and> fst (load [p \<mapsto> A @ l @ newline # B] p) = CorruptDataPoint p # fst (load [p \<mapsto> A @ B] p)"
      using h by (intro excluded_line) simp_all
  qed
next
  have a: "accepted_values ''-1.0\<newline>2.0\<newline>'' = [2]"
    by (simp add: file_eval line_eval)
  have r: "read_lines ''-1.0\<newline>2.0\<newline>'' = [''-1.0'', ''2.0'']"
    by (simp add: file_eval)
  have "[''millikan.dat'' \<mapsto> ''-1.0\<newline>2.0\<newline>''] ''millikan.dat'' = Some ''-1.0\<newline>2.0\<newline>''"
    by simp
  from load_opened [where fs = "[''millikan.dat'' \<mapsto> ''-1.0\<newline>2.0\<newline>'']"
      and p = "''millikan.dat''" and c = "''-1.0\<newline>2.0\<newline>''", OF this]
  show "load [''millikan.dat'' \<mapsto> ''-1.0\<newline>2.0\<newline>''] ''millikan.dat''
       = ([CorruptDataPoint ''millikan.dat''], Inr ([Some 2], 1))"
    by (simp add: a r)
qed

theorem negative_line_excluded_witness:
  "negative_line ''-1.5'' \<and> newline \<notin> set ''-1.5'' \<and> last ''1.0\<newline>'' = newline
   \<and> count_list (''1.0\<newline>'' @ ''-1.5'' @ newline # ''2.0\<newline>'') newline < 2 ^ 32
   \<and> snd (load [''millikan.dat'' \<mapsto> ''1.0\<newline>'' @ ''-1.5'' @ newline # ''2.0\<newline>''] ''millikan.dat'')
       = snd (load [''millikan.dat'' \<mapsto> ''1.0\<newline>'' @ ''2.0\<newline>''] ''millikan.dat'')"
proof -
  define l A B p where "l = ''-1.5''" and "A = ''1.0\<newline>''" and "B = ''2.0\<newline>''"
    and "p = ''millikan.dat''"
  have h: "negative_line l \<and> newline \<notin> set l \<and> (A = [] \<or> last A = newline)
      \<and> count_list (A @ l @ newline # B) newline < 2 ^ 32"
    unfolding l_def A_def B_def by (simp add: spec_eval line_eval newline_def)
  have la: "last A = newline" unfolding A_def by (simp add: newline_def)
  have "snd (load [p \<mapsto> A @ l @ newline # B] p) = snd (load [p \<mapsto> A @ B] p)"
    using negative_line_excluded [of l A B p, THEN conjunct1, THEN mp, OF h] by (rule conjunct1)
  then have "negative_line l \<and> newline \<notin> set l \<and> last A = newline
   \<and> count_list (A @ l @ newline # B) newline < 2 ^ 32
   \<and> snd (load [p \<mapsto> A @ l @ newline # B] p) = snd (load [p \<mapsto> A @ B] p)"
    using h la by blast
  then show ?thesis unfolding l_def A_def B_def p_def .
qed

text \<open>
  Claim C8 says that a line that begins with a floating-point token and goes on after
  it is excluded, and that the size is one less per such line than the line count.
  The code does exclude such a line when the extraction of the number succeeds, as on
  \<open>3.2 abc\<close> (\<open>accept_more\<close>). It keeps the line when the extraction fails, as on
  \<open>1.6eV\<close>, where the exponent mark is taken into the number: the failed extraction
  stores zero, nothing is extracted into \<^verbatim>\<open>emptyTest\<close>, and the line passes the
  test. The content \<open>1.0\<newline>1.6eV\<newline>2.0\<newline>\<close> loads as \<open>[1.0, 0.0, 2.0]\<close> with the size 3 of
  the line count and no diagnostic.
\<close>

theorem load_trailing_garbage_line_stored_as_zero:
  "trailing_garbage ''1.6eV''
   \<and> load [''millikan.dat'' \<mapsto> ''1.0\<newline>1.6eV\<newline>2.0\<newline>''] ''millikan.dat''
       = ([], Inr ([Some 1, Some 0, Some 2], 3))"
proof
  show "trailing_garbage ''1.6eV''"
    by (simp add: spec_eval line_eval)
next
  have a: "accepted_values ''1.0\<newline>1.6eV\<newline>2.0\<newline>'' = [1, 0, 2]"
    by (simp add: file_eval line_eval)
  have r: "read_lines ''1.0\<newline>1.6eV\<newline>2.0\<newline>'' = [''1.0'', ''1.6eV'', ''2.0'']"
    by (simp add: file_eval)
  have "[''millikan.dat'' \<mapsto> ''1.0\<newline>1.6eV\<newline>2.0\<newline>''] ''millikan.dat''
          = Some ''1.0\<newline>1.6eV\<newline>2.0\<newline>''"
    by simp
  from load_opened [where fs = "[''millikan.dat'' \<mapsto> ''1.0\<newline>1.6eV\<newline>2.0\<newline>'']"
      and p = "''millikan.dat''" and c = "''1.0\<newline>1.6eV\<newline>2.0\<newline>''", OF this]
  show "load [''millikan.dat'' \<mapsto> ''1.0\<newline>1.6eV\<newline>2.0\<newline>''] ''millikan.dat''
       = ([], Inr ([Some 1, Some 0, Some 2], 3))"
    by (simp add: a r)
qed

subsection \<open>Files without a final newline\<close>

lemma read_lines_append_tail: "newline \<notin> set t \<Longrightarrow> read_lines (c @ t) = read_lines c"
  by (simp add: read_lines_def terminated_lines_append_tail count_list_append_tail)

lemma accepted_values_append_tail:
  "newline \<notin> set t \<Longrightarrow> accepted_values (c @ t) = accepted_values c"
  by (simp add: accepted_values_def read_lines_append_tail)

lemma read_lines_no_newline: "newline \<notin> set t \<Longrightarrow> read_lines t = []"
  by (simp add: read_lines_def terminated_lines_no_newline)

text \<open>
  Claim C10. What follows the last newline character of a file is ignored: the file
  loads exactly as the file without that part does, with the same Dataset, the same
  size and the same diagnostics. The array has as many cells as the file has newline
  characters (as an \<^verbatim>\<open>unsigned int\<close>), and every one of these candidate lines is either
  stored or reported. A file without any newline character loads as the empty Dataset
  of size 0, without a diagnostic.
\<close>

theorem unterminated_final_line_ignored:
  assumes "newline \<notin> set t"
  shows "load [p \<mapsto> c @ t] p = load [p \<mapsto> c] p
       \<and> (\<exists>m arr sz out.
             getChargeData [p \<mapsto> c @ t] (init new_model p) None [] = (out, Inr (m, Some arr, Some sz))
             \<and> length arr = unat (of_nat (count_list (c @ t) newline) :: uint)
             \<and> length out + unat sz = length arr)
       \<and> load [p \<mapsto> t] p = ([], Inr ([], 0))"
proof (intro conjI)
  have 1: "load [p \<mapsto> c @ t] p =
             (replicate (length (read_lines (c @ t)) - length (accepted_values (c @ t))) (CorruptDataPoint p),
              Inr (map Some (accepted_values (c @ t)), of_nat (length (accepted_values (c @ t)))))"
    by (rule load_opened [where fs = "[p \<mapsto> c @ t]" and p = p and c = "c @ t"]) simp
  have 2: "load [p \<mapsto> c] p =
             (replicate (length (read_lines c) - length (accepted_values c)) (CorruptDataPoint p),
              Inr (map Some (accepted_values c), of_nat (length (accepted_values c))))"
    by (rule load_opened [where fs = "[p \<mapsto> c]" and p = p and c = c]) simp
  show "load [p \<mapsto> c @ t] p = load [p \<mapsto> c] p"
    unfolding 1 2 using assms by (simp add: read_lines_append_tail accepted_values_append_tail)
next
  let ?c = "c @ t"
  let ?k = "length (read_lines ?c) - length (accepted_values ?c)"
  let ?arr = "map Some (accepted_values ?c) @ replicate ?k None"
  have "[p \<mapsto> ?c] p = Some ?c" by simp
  from getChargeData_opened [where m = new_model and fs = "[p \<mapsto> ?c]" and p = p and c = ?c
      and sz = None and out = "[]", OF idle_new_model this]
  obtain m' where g: "getChargeData [p \<mapsto> ?c] (init new_model p) None [] =
           (replicate ?k (CorruptDataPoint p),
            Inr (m', Some ?arr, Some (of_nat (length (accepted_values ?c)))))"
    by auto
  have le: "length (accepted_values ?c) \<le> length (read_lines ?c)"
    by (rule length_accepted_values)
  then have la: "length ?arr = unat (of_nat (count_list ?c newline) :: uint)"
    by (simp add: length_read_lines)
  have lo: "length (replicate ?k (CorruptDataPoint p))
              + unat (of_nat (length (accepted_values ?c)) :: uint) = length ?arr"
    using le by (simp add: unat_length_accepted)
  show "\<exists>m arr sz out.
             getChargeData [p \<mapsto> c @ t] (init new_model p) None [] = (out, Inr (m, Some arr, Some sz))
             \<and> length arr = unat (of_nat (count_list (c @ t) newline) :: uint)
             \<and> length out + unat sz = length arr"
    using g la lo by blast
next
  have "load [p \<mapsto> t] p =
             (replicate (length (read_lines t) - length (accepted_values t)) (CorruptDataPoint p),
              Inr (map Some (accepted_values t), of_nat (length (accepted_values t))))"
    by (rule load_opened [where fs = "[p \<mapsto> t]" and p = p and c = t]) simp
  then show "load [p \<mapsto> t] p = ([], Inr ([], 0))"
    using assms by (simp add: accepted_values_def read_lines_no_newline List.map_filter_simps)
qed

theorem unterminated_final_line_ignored_witness:
  "newline \<notin> set ''7''
   \<and> load [''millikan.dat'' \<mapsto> ''1.0\<newline>'' @ ''7''] ''millikan.dat''
       = load [''millikan.dat'' \<mapsto> ''1.0\<newline>''] ''millikan.dat''
   \<and> load [''millikan.dat'' \<mapsto> ''7''] ''millikan.dat'' = ([], Inr ([], 0))"
proof -
  define t c p where "t = ''7''" and "c = ''1.0\<newline>''" and "p = ''millikan.dat''"
  have h: "newline \<notin> set t" unfolding t_def by (simp add: newline_def)
  have "newline \<notin> set t \<and> load [p \<mapsto> c @ t] p = load [p \<mapsto> c] p
          \<and> load [p \<mapsto> t] p = ([], Inr ([], 0))"
    using h unterminated_final_line_ignored [of t p c, OF h] by blast
  then show ?thesis unfolding t_def c_def p_def .
qed

subsection \<open>Loading again\<close>

text \<open>
  Claim C9. Loading a file that can be opened, disposing of the data and loading the
  same unchanged file again yields the same array and the same size, hence the same
  Dataset; asking the loaded model again returns the array it holds and leaves the
  size as it is.
\<close>

theorem load_twice_same_Dataset:
  assumes "idle m" and "fs p = Some c"
  shows "\<exists>m1 out1 data sz.
           getChargeData fs (init m p) None out = (out1, Inr (m1, Some data, Some sz))
           \<and> (\<exists>m2 out2. getChargeData fs (init (dispose m1) p) None out'
                           = (out2, Inr (m2, Some data, Some sz)))
           \<and> getChargeData fs m1 (Some sz) out' = (out', Inr (m1, Some data, Some sz))"
proof -
  let ?k = "length (read_lines c) - length (accepted_values c)"
  let ?arr = "map Some (accepted_values c) @ replicate ?k None"
  let ?sz = "of_nat (length (accepted_values c)) :: uint"
  from getChargeData_opened [where m = m and fs = fs and p = p and c = c
      and sz = None and out = out, OF assms]
  obtain m1 where g1: "getChargeData fs (init m p) None out =
           (out @ replicate ?k (CorruptDataPoint p), Inr (m1, Some ?arr, Some ?sz))"
    and ch: "m_charges m1 = Some ?arr"
    by auto
  from getChargeData_opened [where m = "dispose m1" and fs = fs and p = p and c = c
      and sz = None and out = out', OF idle_dispose assms(2)]
  obtain m2 where g2: "getChargeData fs (init (dispose m1) p) None out' =
           (out' @ replicate ?k (CorruptDataPoint p), Inr (m2, Some ?arr, Some ?sz))"
    by auto
  have g3: "getChargeData fs m1 (Some ?sz) out' = (out', Inr (m1, Some ?arr, Some ?sz))"
    using ch by (simp add: getChargeData_def)
  show ?thesis using g1 g2 g3 by blast
qed

theorem load_twice_same_Dataset_witness:
  "idle new_model
   \<and> [''millikan.dat'' \<mapsto> ''1.0\<newline>foo\<newline>''] ''millikan.dat'' = Some ''1.0\<newline>foo\<newline>''
   \<and> (\<exists>m1 out1 data sz.
           getChargeData [''millikan.dat'' \<mapsto> ''1.0\<newline>foo\<newline>''] (init new_model ''millikan.dat'') None []
             = (out1, Inr (m1, Some data, Some sz))
           \<and> (\<exists>m2 out2. getChargeData [''millikan.dat'' \<mapsto> ''1.0\<newline>foo\<newline>'']
                           (init (dispose m1) ''millikan.dat'') None []
                           = (out2, Inr (m2, Some data, Some sz))))"
proof -
  define fs :: filesystem where "fs = [''millikan.dat'' \<mapsto> ''1.0\<newline>foo\<newline>'']"
  define p c where "p = ''millikan.dat''" and "c = ''1.0\<newline>foo\<newline>''"
  have h: "fs p = Some c" unfolding fs_def p_def c_def by simp
  from load_twice_same_Dataset [where m = new_model and fs = fs and p = p and c = c
      and out = "[]" and out' = "[]", OF idle_new_model h]
  have "\<exists>m1 out1 data sz.
           getChargeData fs (init new_model p) None [] = (out1, Inr (m1, Some data, Some sz))
           \<and> (\<exists>m2 out2. getChargeData fs (init (dispose m1) p) None []
                           = (out2, Inr (m2, Some data, Some sz)))"
    by blast
  then have "idle new_model \<and> fs p = Some c \<and> (\<exists>m1 out1 data sz.
           getChargeData fs (init new_model p) None [] = (out1, Inr (m1, Some data, Some sz))
           \<and> (\<exists>m2 out2. getChargeData fs (init (dispose m1) p) None []
                           = (out2, Inr (m2, Some data, Some sz))))"
    using idle_new_model h by blast
  then show ?thesis unfolding fs_def p_def c_def .
qed

subsection \<open>The run over several files\<close>

lemma reported_append: "reported (xs @ ys) = reported xs @ reported ys"
  by (induction xs rule: reported.induct) simp_all

lemma reported_diagnostics: "reported (replicate k (CorruptDataPoint q)) = []"
  by (induction k) simp_all

lemma main_loop_missing:
  assumes "idle m" and "fs p = None"
  shows "main_loop fs m (p # later) out = (out @ [CouldNotOpen p], Inl ProcessExit)"
  using getChargeData_missing [where m = m and fs = fs and p = p and sz = None and out = out,
      OF assms]
  by simp

lemma main_loop_opened:
  assumes "idle m" and "fs q = Some c"
  shows "\<exists>m' ev. reported ev = [q]
           \<and> (\<forall>files. main_loop fs m (q # files) out = main_loop fs (dispose m') files (out @ ev))"
proof -
  let ?k = "length (read_lines c) - length (accepted_values c)"
  let ?arr = "map Some (accepted_values c) @ replicate ?k None"
  let ?sz = "of_nat (length (accepted_values c)) :: uint"
  let ?mean = "computeMean ?arr ?sz"
  let ?ev = "replicate ?k (CorruptDataPoint q)
               @ [FileReport q ?mean (computeStandardErrorInTheMean ?mean ?sz)
                    (computeStandardDeviation ?arr ?sz ?mean)]"
  from getChargeData_opened [where m = m and fs = fs and p = q and c = c
      and sz = None and out = out, OF assms]
  obtain m' where g: "getChargeData fs (init m q) None out =
           (out @ replicate ?k (CorruptDataPoint q), Inr (m', Some ?arr, Some ?sz))"
    by auto
  have r: "reported ?ev = [q]" by (simp add: reported_append reported_diagnostics)
  have "\<forall>files. main_loop fs m (q # files) out = main_loop fs (dispose m') files (out @ ?ev)"
    using g by (simp add: Let_def)
  then show ?thesis using r by blast
qed

lemma main_loop_until_missing:
  assumes "idle m" and "fs p = None"
  shows "main_loop fs m (pre @ p # later) out = main_loop fs m (pre @ [p]) out
       \<and> snd (main_loop fs m (pre @ p # later) out) = Inl ProcessExit
       \<and> reported (fst (main_loop fs m (pre @ p # later) out))
           = reported out @ takeWhile (\<lambda>q. fs q \<noteq> None) pre"
  using assms(1)
proof (induction pre arbitrary: m out)
  case Nil
  then show ?case
    using main_loop_missing [where fs = fs and p = p, OF Nil assms(2)]
    by (simp add: reported_append)
next
  case (Cons q pre)
  show ?case
  proof (cases "fs q")
    case None
    have "\<And>rest. main_loop fs m (q # rest) out = (out @ [CouldNotOpen q], Inl ProcessExit)"
      using Cons.prems None by (rule main_loop_missing)
    then show ?thesis using None by (simp add: reported_append)
  next
    case (Some c)
    from main_loop_opened [where fs = fs, OF Cons.prems Some, of out]
    obtain m' ev where r: "reported ev = [q]"
      and st: "\<And>files. main_loop fs m (q # files) out = main_loop fs (dispose m') files (out @ ev)"
      by blast
    have ih: "main_loop fs (dispose m') (pre @ p # later) (out @ ev)
                = main_loop fs (dispose m') (pre @ [p]) (out @ ev)
       \<and> snd (main_loop fs (dispose m') (pre @ p # later) (out @ ev)) = Inl ProcessExit
       \<and> reported (fst (main_loop fs (dispose m') (pre @ p # later) (out @ ev)))
           = reported (out @ ev) @ takeWhile (\<lambda>q. fs q \<noteq> None) pre"
      using idle_dispose by (rule Cons.IH)
    have a: "main_loop fs m ((q # pre) @ p # later) out
               = main_loop fs (dispose m') (pre @ p # later) (out @ ev)"
      using st [of "pre @ p # later"] by simp
    have b: "main_loop fs m ((q # pre) @ [p]) out = main_loop fs (dispose m') (pre @ [p]) (out @ ev)"
      using st [of "pre @ [p]"] by simp
    show ?thesis
      unfolding a b
    proof (intro conjI)
      show "main_loop fs (dispose m') (pre @ p # later) (out @ ev)
              = main_loop fs (dispose m') (pre @ [p]) (out @ ev)"
        using ih by (rule conjunct1)
      show "snd (main_loop fs (dispose m') (pre @ p # later) (out @ ev)) = Inl ProcessExit"
        using ih by (rule conjunct1 [OF conjunct2])
      have "reported (fst (main_loop fs (dispose m') (pre @ p # later) (out @ ev)))
              = reported (out @ ev) @ takeWhile (\<lambda>q. fs q \<noteq> None) pre"
        using ih by (rule conjunct2 [OF conjunct2])
      then show "reported (fst (main_loop fs (dispose m') (pre @ p # later) (out @ ev)))
              = reported out @ takeWhile (\<lambda>q. fs q \<noteq> None) (q # pre)"
        using r Some by (simp add: reported_append)
    qed
  qed
qed

text \<open>
  Claim C6. Loading a path that cannot be opened prints the message, yields no
  Dataset and ends the process. In a run over several files, the files after the
  first such path have no effect on the run, the run ends with the exit of the
  process, and results are printed exactly for the files before the first path that
  cannot be opened.
\<close>

theorem unopenable_file_ends_run:
  assumes "fs p = None"
  shows "load fs p = ([CouldNotOpen p], Inl ProcessExit)
       \<and> main fs (pre @ p # later) = main fs (pre @ [p])
       \<and> snd (main fs (pre @ p # later)) = Inl ProcessExit
       \<and> reported (fst (main fs (pre @ p # later))) = takeWhile (\<lambda>q. fs q \<noteq> None) pre"
proof -
  note run = main_loop_until_missing [where fs = fs and p = p and m = new_model and out = "[]"
      and pre = pre and later = later, OF idle_new_model assms]
  have 1: "load fs p = ([CouldNotOpen p], Inl ProcessExit)"
    using assms by (rule load_missing [where fs = fs and p = p])
  have 2: "main fs (pre @ p # later) = main fs (pre @ [p])"
    unfolding main_def using run by (rule conjunct1)
  have 3: "snd (main fs (pre @ p # later)) = Inl ProcessExit"
    unfolding main_def using run by (rule conjunct1 [OF conjunct2])
  have "reported (fst (main_loop fs new_model (pre @ p # later) []))
          = reported [] @ takeWhile (\<lambda>q. fs q \<noteq> None) pre"
    using run by (rule conjunct2 [OF conjunct2])
  then have 4: "reported (fst (main fs (pre @ p # later))) = takeWhile (\<lambda>q. fs q \<noteq> None) pre"
    unfolding main_def by simp
  show ?thesis using 1 2 3 4 by blast
qed

theorem unopenable_file_ends_run_witness:
  "[''a.dat'' \<mapsto> ''1.0\<newline>2.0\<newline>''] ''b.dat'' = None
   \<and> load [''a.dat'' \<mapsto> ''1.0\<newline>2.0\<newline>''] ''b.dat'' = ([CouldNotOpen ''b.dat''], Inl ProcessExit)
   \<and> snd (main [''a.dat'' \<mapsto> ''1.0\<newline>2.0\<newline>''] ([''a.dat''] @ ''b.dat'' # [''a.dat'']))
       = Inl ProcessExit
   \<and> reported (fst (main [''a.dat'' \<mapsto> ''1.0\<newline>2.0\<newline>''] ([''a.dat''] @ ''b.dat'' # [''a.dat''])))
       = [''a.dat'']"
proof -
  define fs :: filesystem where "fs = [''a.dat'' \<mapsto> ''1.0\<newline>2.0\<newline>'']"
  define a b where "a = ''a.dat''" and "b = ''b.dat''"
  have h: "fs b = None" unfolding fs_def b_def by simp
  have o: "fs a \<noteq> None" unfolding fs_def a_def by simp
  have t: "takeWhile (\<lambda>q. fs q \<noteq> None) [a] = [a]" using o by simp
  note run = unopenable_file_ends_run [where fs = fs and p = b and pre = "[a]" and later = "[a]",
        OF h]
  have 1: "load fs b = ([CouldNotOpen b], Inl ProcessExit)"
    using run by (rule conjunct1)
  have 3: "snd (main fs ([a] @ b # [a])) = Inl ProcessExit"
    using run by (rule conjunct1 [OF conjunct2 [OF conjunct2]])
  have "reported (fst (main fs ([a] @ b # [a]))) = takeWhile (\<lambda>q. fs q \<noteq> None) [a]"
    using run by (rule conjunct2 [OF conjunct2 [OF conjunct2]])
  then have 4: "reported (fst (main fs ([a] @ b # [a]))) = [a]"
    unfolding t .
  have "fs b = None \<and> load fs b = ([CouldNotOpen b], Inl ProcessExit)
     \<and> snd (main fs ([a] @ b # [a])) = Inl ProcessExit
     \<and> reported (fst (main fs ([a] @ b # [a]))) = [a]"
    using h 1 3 4 by blast
  then show ?thesis unfolding fs_def a_def b_def .
qed

section \<open>The statistics of the specification\<close>

lemma read_cell_Some:
  "unat i < length xs \<Longrightarrow> read_cell (map Some xs @ rest) i = Inr (xs ! unat i)"
  by (simp add: read_cell_def nth_append)

lemma total_loop_sum:
  "unat sz = length xs \<Longrightarrow> i \<le> sz \<Longrightarrow> (\<And>x. x \<in> set xs \<Longrightarrow> g x = Inr (h x)) \<Longrightarrow>
   partial_sums_finite tot (map h (drop (unat i) xs)) \<Longrightarrow>
   total_loop g (map Some xs @ rest) sz i (Inr tot)
     = Inr (tot + sum_list (map h (drop (unat i) xs)))"
proof (induction g "map Some xs @ rest" sz i "Inr tot :: error + double" arbitrary: tot
    rule: total_loop.induct)
  case (1 g sz i)
  show ?case
  proof (cases "i < sz")
    case True
    then have lt: "unat i < length xs" using "1.prems" by (simp add: word_less_nat_alt)
    have rd: "read_cell (map Some xs @ rest) i = Inr (xs ! unat i)"
      using lt by (rule read_cell_Some)
    have su: "unat (i + 1) = Suc (unat i)" using True by (rule word_succ_unat)
    have le: "i + 1 \<le> sz" using True by (rule inc_le)
    have dr: "drop (unat i) xs = xs ! unat i # drop (Suc (unat i)) xs"
      using lt by (simp add: Cons_nth_drop_Suc)
    have fin: "\<not> overflows (tot + h (xs ! unat i))"
      and rest: "partial_sums_finite (tot + h (xs ! unat i)) (map h (drop (unat (i + 1)) xs))"
      using "1.prems"(4) unfolding dr su by simp_all
    have "g (xs ! unat i) = Inr (h (xs ! unat i))"
      using lt by (intro "1.prems"(3)) simp
    then have ad: "fadd (Inr tot) (g (xs ! unat i)) = Inr (tot + h (xs ! unat i))"
      using fin by (simp add: fadd_def finite_result_def)
    have ih: "total_loop g (map Some xs @ rest) sz (i + 1) (Inr (tot + h (xs ! unat i)))
                = Inr (tot + h (xs ! unat i) + sum_list (map h (drop (unat (i + 1)) xs)))"
      using "1.hyps" [OF True rd ad "1.prems"(1) le "1.prems"(3) rest] .
    show ?thesis
      by (subst total_loop.simps) (simp add: True rd ad ih su dr)
  next
    case False
    then have "i = sz" using "1.prems" by simp
    then show ?thesis using "1.prems"
      by (subst total_loop.simps) simp
  qed
qed

lemma fdiv_fsqrt_pos: "0 < r \<Longrightarrow> fdiv (Inr m) (fsqrt (Inr r)) = Inr (m / sqrt r)"
  by (simp add: fsqrt_def fdiv_def)

text \<open>
  Claim C3. For every mean \<open>m\<close> and every count \<open>n\<close> of at least 1,
  \<^verbatim>\<open>computeStandardErrorInTheMean\<close> returns \<open>m / sqrt n\<close>: the mean, not the standard
  deviation, divided by the square root of the count.
\<close>

theorem computeStandardErrorInTheMean_formula:
  "1 \<le> unat n \<Longrightarrow> computeStandardErrorInTheMean (Inr m) n = Inr (m / sqrt (real (unat n)))"
proof -
  assume "1 \<le> unat n"
  then have "0 < unat n" by simp
  then have "0 < real (unat n)" by (simp only: of_nat_0_less_iff)
  then show ?thesis
    unfolding computeStandardErrorInTheMean_def by (rule fdiv_fsqrt_pos)
qed

theorem computeStandardErrorInTheMean_formula_witness:
  "1 \<le> unat (4 :: uint) \<and> computeStandardErrorInTheMean (Inr 6) 4 = Inr 3"
  using computeStandardErrorInTheMean_formula [of 4 6] by simp

subsection \<open>Totals that leave the range of a double\<close>

lemma overflows_threshold: "\<not> overflows 0" "\<not> overflows 1" "overflows (2 ^ 1024)"
  by (simp_all add: overflows_def)

lemma overflows_mono: "\<bar>x\<bar> \<le> \<bar>y\<bar> \<Longrightarrow> \<not> overflows y \<Longrightarrow> \<not> overflows x"
  by (simp add: overflows_def)

lemma overflows_square: "\<not> overflows (d\<^sup>2) \<Longrightarrow> \<not> overflows d"
proof (cases "\<bar>d\<bar> \<le> 1")
  case True
  assume "\<not> overflows (d\<^sup>2)"
  have "\<bar>d\<bar> \<le> \<bar>1 :: real\<bar>" using True by simp
  then show ?thesis using overflows_threshold(2) by (rule overflows_mono)
next
  case False
  assume sq: "\<not> overflows (d\<^sup>2)"
  have "\<bar>d\<bar> * 1 \<le> \<bar>d\<bar> * \<bar>d\<bar>" using False by (intro mult_left_mono) simp_all
  then have "\<bar>d\<bar> \<le> \<bar>d\<^sup>2\<bar>" by (simp add: power2_eq_square abs_mult)
  then show ?thesis using sq by (rule overflows_mono)
qed

lemma partial_sums_nonneg:
  "0 \<le> tot \<Longrightarrow> \<forall>y \<in> set ys. 0 \<le> y \<Longrightarrow> \<not> overflows (tot + sum_list ys) \<Longrightarrow>
   partial_sums_finite tot ys"
proof (induction ys arbitrary: tot)
  case Nil
  then show ?case by simp
next
  case (Cons y ys)
  have s: "0 \<le> sum_list ys" using Cons.prems(2) by (intro sum_list_nonneg) simp
  have y: "0 \<le> y" using Cons.prems(2) by simp
  have "\<bar>tot + y\<bar> \<le> \<bar>tot + sum_list (y # ys)\<bar>" using Cons.prems(1) s y by simp
  then have 1: "\<not> overflows (tot + y)" using Cons.prems(3) by (rule overflows_mono)
  have "partial_sums_finite (tot + y) ys"
    using Cons.prems y by (intro Cons.IH) (simp_all add: add.assoc)
  then show ?case using 1 by simp
qed

text \<open>
  Claim C5 as stated: the mean of every non-empty data sequence is its sum divided by
  its count. It fails on two cells that both hold the largest double: their sum is
  too large for a double, the total is an infinity, and so is the mean, while the sum
  divided by 2 is the largest double.
\<close>

theorem computeMean_overflow_counterexample:
  "computeMean [Some DBL_MAX, Some DBL_MAX] 2
     \<noteq> Inr (sum_list [DBL_MAX, DBL_MAX] / real (length [DBL_MAX, DBL_MAX]))"
proof -
  have o: "\<not> overflows DBL_MAX" "overflows (DBL_MAX + DBL_MAX)"
    by (simp_all add: overflows_def DBL_MAX_def)
  have "total_loop (\<lambda>x. Inr x) [Some DBL_MAX, Some DBL_MAX] 2 0 (Inr 0) = Inl Overflow"
    using o by (simp add: total_loop.simps read_cell_def fadd_def finite_result_def)
  then have "computeMean [Some DBL_MAX, Some DBL_MAX] 2 = Inl Overflow"
    by (simp add: computeMean_def fdiv_def)
  then show ?thesis by simp
qed

text \<open>
  Claim C5, amended. For a data sequence of \<open>n\<close> values with \<open>n\<close> at least 1 (and within
  \<^verbatim>\<open>unsigned int\<close>) whose totals, added in order, all stay within the range of a
  double, \<^verbatim>\<open>computeMean\<close> returns the sum divided by \<open>n\<close>; for the count 0 the
  division has a zero divisor and there is no defined result.
\<close>

theorem computeMean_formula:
  "(0 < length xs \<and> length xs < 2 ^ 32 \<and> partial_sums_finite 0 xs \<longrightarrow>
      computeMean (map Some xs @ rest) (of_nat (length xs)) = Inr (sum_list xs / real (length xs)))
   \<and> computeMean data 0 = Inl DivisionByZero"
proof
  show "0 < length xs \<and> length xs < 2 ^ 32 \<and> partial_sums_finite 0 xs \<longrightarrow>
      computeMean (map Some xs @ rest) (of_nat (length xs)) = Inr (sum_list xs / real (length xs))"
  proof
    assume a: "0 < length xs \<and> length xs < 2 ^ 32 \<and> partial_sums_finite 0 xs"
    then have u: "unat (of_nat (length xs) :: uint) = length xs" by (simp add: unat_of_nat32)
    have "total_loop (\<lambda>x. Inr x) (map Some xs @ rest) (of_nat (length xs)) 0 (Inr 0)
            = Inr (0 + sum_list (map (\<lambda>x. x) (drop (unat (0::uint)) xs)))"
      using u a by (intro total_loop_sum) simp_all
    then show "computeMean (map Some xs @ rest) (of_nat (length xs)) = Inr (sum_list xs / real (length xs))"
      using a u by (simp add: computeMean_def fdiv_def)
  qed
next
  have "total_loop (\<lambda>x. Inr x) data 0 0 (Inr 0) = Inr 0"
    by (subst total_loop.simps) simp
  then show "computeMean data 0 = Inl DivisionByZero"
    by (simp add: computeMean_def fdiv_def)
qed

theorem computeMean_formula_witness:
  "partial_sums_finite 0 [1, 2, 3]
   \<and> computeMean [Some 1, Some 2, Some 3] 3 = Inr 2 \<and> computeMean [] 0 = Inl DivisionByZero"
proof -
  have p: "partial_sums_finite 0 [1, 2, 3]" by (simp add: overflows_def)
  show ?thesis
    using p computeMean_formula [of "[1, 2, 3]" "[]" "[]"] by simp
qed

text \<open>
  Claim C4 as stated: for every data sequence of at least two values and every \<open>m\<close>
  the result is the root of the sum of the squared distances divided by \<open>n - 1\<close>. It
  fails on the cells \<open>2^600\<close> and \<open>0\<close> with \<open>m = 0\<close>: the square of \<open>2^600\<close> is too
  large for a double, so the total and the result are an infinity.
\<close>

theorem computeStandardDeviation_overflow_counterexample:
  "computeStandardDeviation [Some (2 ^ 600), Some 0] 2 (Inr 0)
     \<noteq> Inr (sqrt ((\<Sum>x\<leftarrow>[2 ^ 600, 0]. (x - 0)\<^sup>2) / real (length [2 ^ 600, 0 :: real] - 1)))"
proof -
  have o: "\<not> overflows (2 ^ 600)" "overflows ((2 ^ 600)\<^sup>2)"
    unfolding overflows_def power_mult [symmetric] by simp_all
  have "total_loop (\<lambda>x. fpow2 (fsub (Inr x) (Inr 0))) [Some (2 ^ 600), Some 0] 2 0 (Inr 0)
          = Inl Overflow"
    using o by (simp add: total_loop.simps read_cell_def fadd_def fsub_def fpow2_def
        finite_result_def)
  then have "computeStandardDeviation [Some (2 ^ 600), Some 0] 2 (Inr 0) = Inl Overflow"
    by (simp add: computeStandardDeviation_def fdiv_def fsqrt_def)
  then show ?thesis by (simp only: sum.distinct not_False_eq_True)
qed

text \<open>
  Claim C4, amended. For a data sequence of \<open>n\<close> values with \<open>n\<close> at least 2 and every
  value \<open>m\<close> such that the sum of the squared distances from \<open>m\<close> is within the range of
  a double, \<^verbatim>\<open>computeStandardDeviation\<close> returns the square root of that sum divided
  by \<open>n - 1\<close>.
\<close>

theorem computeStandardDeviation_formula:
  "2 \<le> length xs \<Longrightarrow> length xs < 2 ^ 32 \<Longrightarrow> \<not> overflows (\<Sum>x\<leftarrow>xs. (x - m)\<^sup>2) \<Longrightarrow>
   computeStandardDeviation (map Some xs @ rest) (of_nat (length xs)) (Inr m)
     = Inr (sqrt ((\<Sum>x\<leftarrow>xs. (x - m)\<^sup>2) / real (length xs - 1)))"
proof -
  assume a: "2 \<le> length xs" and b: "length xs < 2 ^ 32"
    and c: "\<not> overflows (\<Sum>x\<leftarrow>xs. (x - m)\<^sup>2)"
  let ?n = "of_nat (length xs) :: uint"
  let ?h = "\<lambda>x. (x - m)\<^sup>2"
  have u: "unat ?n = length xs" using b by (simp add: unat_of_nat32)
  have one: "(1 :: uint) \<le> ?n" using a u by (simp add: word_le_nat_alt)
  have u1: "unat (?n - 1) = length xs - 1" using one u by (simp add: unat_sub)
  have ps: "partial_sums_finite 0 (map ?h xs)"
    using c by (intro partial_sums_nonneg) simp_all
  have cell: "fpow2 (fsub (Inr x) (Inr m)) = Inr (?h x)" if x: "x \<in> set xs" for x
  proof -
    have "?h x \<le> (\<Sum>x\<leftarrow>xs. ?h x)"
      using x by (intro member_le_sum_list) auto
    moreover have "0 \<le> ?h x" by simp
    ultimately have "\<bar>?h x\<bar> \<le> \<bar>\<Sum>x\<leftarrow>xs. ?h x\<bar>" by linarith
    then have sq: "\<not> overflows (?h x)" using c by (rule overflows_mono)
    then have "\<not> overflows (x - m)" by (rule overflows_square)
    then show ?thesis using sq by (simp add: fpow2_def fsub_def finite_result_def)
  qed
  have tl: "total_loop (\<lambda>x. fpow2 (fsub (Inr x) (Inr m))) (map Some xs @ rest) ?n 0 (Inr 0)
            = Inr (0 + sum_list (map ?h (drop (unat (0::uint)) xs)))"
    using u ps cell by (intro total_loop_sum) simp_all
  have nn: "0 \<le> (\<Sum>x\<leftarrow>xs. (x - m)\<^sup>2) / real (length xs - 1)"
    by (intro divide_nonneg_nonneg sum_list_nonneg) auto
  have ne: "real (length xs - 1) \<noteq> 0" using a by simp
  show ?thesis
    unfolding computeStandardDeviation_def tl u1 fdiv_def fsqrt_def
    using nn ne by (simp del: of_nat_diff)
qed

theorem computeStandardDeviation_formula_witness:
  "\<not> overflows (\<Sum>x\<leftarrow>[1, 2, 3]. (x - 2)\<^sup>2)
   \<and> computeStandardDeviation [Some 1, Some 2, Some 3] 3 (Inr 2) = Inr 1"
proof -
  have h: "\<not> overflows (\<Sum>x\<leftarrow>[1, 2, 3]. (x - 2)\<^sup>2)" by (simp add: overflows_def)
  show ?thesis
    using h computeStandardDeviation_formula [of "[1, 2, 3]" 2 "[]", OF _ _ h] by simp
qed

end
